theory Spec2Isabelle
  imports Complex_Main
begin

section \<open>Data model of pcb\_placement.py\<close>

text \<open>
  The dataclass \<open>Component\<close>. Its fields \<open>name\<close>, \<open>width\<close>, \<open>height\<close>, \<open>x\<close>, \<open>y\<close> carry
  the prefix \<open>comp_\<close>, those of \<open>Rectangle\<close> the prefix \<open>rect_\<close>, because both classes
  use the same field names. Python integers are unbounded: \<open>int\<close>. The field
  \<open>proximity_target\<close> is a string or \<open>None\<close>. The field \<open>max_proximity_distance\<close>
  is a Python float, read here as an exact real number; \<open>np.sqrt\<close> is the real
  square root.
\<close>

record component =
  comp_name :: string
  comp_width :: int
  comp_height :: int
  comp_x :: int
  comp_y :: int
  must_be_on_edge :: bool
  can_place_anywhere :: bool
  proximity_target :: "string option"
  max_proximity_distance :: real

record rectangle =
  rect_x :: int
  rect_y :: int
  rect_width :: int
  rect_height :: int

definition Rectangle :: "int \<Rightarrow> int \<Rightarrow> int \<Rightarrow> int \<Rightarrow> rectangle" where
  "Rectangle a b w h = \<lparr>rect_x = a, rect_y = b, rect_width = w, rect_height = h\<rparr>"

text \<open>
  Components are mutable objects: \<open>place_component\<close> writes \<open>component.x\<close> and
  \<open>component.y\<close> and appends the object itself (a reference) to
  \<open>placed_components\<close>. The model keeps an object store, \<open>objects\<close>, from references to
  component values; the placed list holds references.
\<close>

type_synonym ref = nat

record placer =
  board_width :: int
  board_height :: int
  placed_components :: "ref list"
  free_rectangles :: "rectangle list"
  objects :: "ref \<Rightarrow> component"

text \<open>\<open>PCBPlacer.__init__\<close>, over a given store of component objects.\<close>

definition PCBPlacer :: "int \<Rightarrow> int \<Rightarrow> (ref \<Rightarrow> component) \<Rightarrow> placer" where
  "PCBPlacer w h objs =
     \<lparr>board_width = w, board_height = h, placed_components = [],
      free_rectangles = [Rectangle 0 0 w h], objects = objs\<rparr>"

text \<open>
  Scores start as \<open>float('inf')\<close> and become integers once a candidate is kept.
\<close>

datatype score = Finite int | Infinity

fun score_less :: "score \<Rightarrow> score \<Rightarrow> bool" where
  "score_less (Finite a) (Finite b) = (a < b)"
| "score_less (Finite a) Infinity = True"
| "score_less Infinity b = False"

section \<open>is\_position\_valid\<close>

text \<open>The overlap test of lines 46-49: the candidate at \<open>(x, y)\<close> against a placed component.\<close>

definition overlaps_placed :: "component \<Rightarrow> int \<Rightarrow> int \<Rightarrow> component \<Rightarrow> bool" where
  "overlaps_placed component x y placed =
     (\<not> (x \<ge> comp_x placed + comp_width placed \<or>
         x + comp_width component \<le> comp_x placed \<or>
         y \<ge> comp_y placed + comp_height placed \<or>
         y + comp_height component \<le> comp_y placed))"

text \<open>Lines 64-70: the distance of the centres, each centre with floor-divided half extents.\<close>

definition center_distance :: "component \<Rightarrow> int \<Rightarrow> int \<Rightarrow> component \<Rightarrow> real" where
  "center_distance component x y target =
     (let target_center_x = comp_x target + comp_width target div 2;
          target_center_y = comp_y target + comp_height target div 2;
          component_center_x = x + comp_width component div 2;
          component_center_y = y + comp_height component div 2
      in sqrt (real_of_int ((component_center_x - target_center_x)\<^sup>2 +
                            (component_center_y - target_center_y)\<^sup>2)))"

text \<open>
  Line 71, \<open>distance > component.max_proximity_distance\<close>. The square root is not
  computable; the code equation \<open>too_far_code\<close> decides the comparison on the squares.
\<close>

definition too_far :: "component \<Rightarrow> int \<Rightarrow> int \<Rightarrow> component \<Rightarrow> bool" where
  "too_far component x y target =
     (center_distance component x y target > max_proximity_distance component)"

text \<open>
  Line 62: \<open>next((c for c in placed if c.name == target), None)\<close>, the first placed
  object with the name.
\<close>

definition find_target :: "placer \<Rightarrow> string \<Rightarrow> ref option" where
  "find_target s t = find (\<lambda>p. comp_name (objects s p) = t) (placed_components s)"

text \<open>
  Lines 61-72. \<open>if component.proximity_target:\<close> is a truth test: \<open>None\<close> and the empty
  string both skip the check. An object of a dataclass is always true, so
  \<open>if target:\<close> only tests that a target was found.
\<close>

definition proximity_ok :: "placer \<Rightarrow> component \<Rightarrow> int \<Rightarrow> int \<Rightarrow> bool" where
  "proximity_ok s component x y =
     (case proximity_target component of
        None \<Rightarrow> True
      | Some t \<Rightarrow>
          if t = [] then True
          else (case find_target s t of
                  None \<Rightarrow> True
                | Some target \<Rightarrow>
                    \<not> too_far component x y (objects s target)))"

definition is_position_valid :: "placer \<Rightarrow> ref \<Rightarrow> int \<Rightarrow> int \<Rightarrow> bool" where
  "is_position_valid s c x y =
     (let component = objects s c in
      if x < 0 \<or> y < 0 \<or> x + comp_width component > board_width s \<or>
         y + comp_height component > board_height s then False
      else if list_ex (\<lambda>p. overlaps_placed component x y (objects s p)) (placed_components s)
        then False
      else if must_be_on_edge component \<and>
              \<not> (x = 0 \<or> y = 0 \<or> x + comp_width component = board_width s \<or>
                  y + comp_height component = board_height s) then False
      else proximity_ok s component x y)"

section \<open>The three heuristics\<close>

text \<open>
  Each heuristic is a loop over \<open>free_rectangles\<close> that carries
  \<open>(best_x, best_y, best_\<dots>, best_\<dots>)\<close>; the loop body is the step function, the loop is
  \<open>fold\<close> from \<open>(-1, -1, inf, inf)\<close>.
\<close>

type_synonym best = "int \<times> int \<times> score \<times> score"

definition bssf_step :: "placer \<Rightarrow> ref \<Rightarrow> rectangle \<Rightarrow> best \<Rightarrow> best" where
  "bssf_step s c rect best =
     (case best of (best_x, best_y, best_short_side, best_long_side) \<Rightarrow>
      let component = objects s c in
      if rect_width rect \<ge> comp_width component \<and> rect_height rect \<ge> comp_height component then
        let leftover_horizontal = rect_width rect - comp_width component;
            leftover_vertical = rect_height rect - comp_height component;
            short_side = min leftover_horizontal leftover_vertical;
            long_side = max leftover_horizontal leftover_vertical
        in if is_position_valid s c (rect_x rect) (rect_y rect) then
             if score_less (Finite short_side) best_short_side \<or>
                (Finite short_side = best_short_side \<and> score_less (Finite long_side) best_long_side)
             then (rect_x rect, rect_y rect, Finite short_side, Finite long_side)
             else best
           else best
      else best)"

definition find_best_position_bssf :: "placer \<Rightarrow> ref \<Rightarrow> int \<times> int \<times> score" where
  "find_best_position_bssf s c =
     (case fold (bssf_step s c) (free_rectangles s) (-1, -1, Infinity, Infinity) of
        (best_x, best_y, best_short_side, best_long_side) \<Rightarrow> (best_x, best_y, best_short_side))"

text \<open>The state of the BLSF loop is written \<open>(best_x, best_y, best_long_side, best_short_side)\<close>.\<close>

definition blsf_step :: "placer \<Rightarrow> ref \<Rightarrow> rectangle \<Rightarrow> best \<Rightarrow> best" where
  "blsf_step s c rect best =
     (case best of (best_x, best_y, best_long_side, best_short_side) \<Rightarrow>
      let component = objects s c in
      if rect_width rect \<ge> comp_width component \<and> rect_height rect \<ge> comp_height component then
        let leftover_horizontal = rect_width rect - comp_width component;
            leftover_vertical = rect_height rect - comp_height component;
            short_side = min leftover_horizontal leftover_vertical;
            long_side = max leftover_horizontal leftover_vertical
        in if is_position_valid s c (rect_x rect) (rect_y rect) then
             if score_less (Finite long_side) best_long_side \<or>
                (Finite long_side = best_long_side \<and> score_less (Finite short_side) best_short_side)
             then (rect_x rect, rect_y rect, Finite long_side, Finite short_side)
             else best
           else best
      else best)"

definition find_best_position_blsf :: "placer \<Rightarrow> ref \<Rightarrow> int \<times> int \<times> score" where
  "find_best_position_blsf s c =
     (case fold (blsf_step s c) (free_rectangles s) (-1, -1, Infinity, Infinity) of
        (best_x, best_y, best_long_side, best_short_side) \<Rightarrow> (best_x, best_y, best_long_side))"

text \<open>The state of the BAF loop is \<open>(best_x, best_y, best_area_fit, best_short_side)\<close>.\<close>

definition baf_step :: "placer \<Rightarrow> ref \<Rightarrow> rectangle \<Rightarrow> best \<Rightarrow> best" where
  "baf_step s c rect best =
     (case best of (best_x, best_y, best_area_fit, best_short_side) \<Rightarrow>
      let component = objects s c in
      if rect_width rect \<ge> comp_width component \<and> rect_height rect \<ge> comp_height component then
        let leftover_horizontal = rect_width rect - comp_width component;
            leftover_vertical = rect_height rect - comp_height component;
            area_fit = leftover_horizontal * leftover_vertical;
            short_side = min leftover_horizontal leftover_vertical
        in if is_position_valid s c (rect_x rect) (rect_y rect) then
             if score_less (Finite area_fit) best_area_fit \<or>
                (Finite area_fit = best_area_fit \<and> score_less (Finite short_side) best_short_side)
             then (rect_x rect, rect_y rect, Finite area_fit, Finite short_side)
             else best
           else best
      else best)"

definition find_best_position_baf :: "placer \<Rightarrow> ref \<Rightarrow> int \<times> int \<times> score" where
  "find_best_position_baf s c =
     (case fold (baf_step s c) (free_rectangles s) (-1, -1, Infinity, Infinity) of
        (best_x, best_y, best_area_fit, best_short_side) \<Rightarrow> (best_x, best_y, best_area_fit))"

section \<open>Splitting and pruning the free rectangles\<close>

definition split_free_rectangle :: "rectangle \<Rightarrow> component \<Rightarrow> int \<Rightarrow> int \<Rightarrow> rectangle list" where
  "split_free_rectangle rect component x y =
     (if x > rect_x rect
      then [Rectangle (rect_x rect) (rect_y rect) (x - rect_x rect) (rect_height rect)] else []) @
     (if x + comp_width component < rect_x rect + rect_width rect
      then [Rectangle (x + comp_width component) (rect_y rect)
              (rect_x rect + rect_width rect - x - comp_width component) (rect_height rect)] else []) @
     (if y > rect_y rect
      then [Rectangle (rect_x rect) (rect_y rect) (rect_width rect) (y - rect_y rect)] else []) @
     (if y + comp_height component < rect_y rect + rect_height rect
      then [Rectangle (rect_x rect) (y + comp_height component)
              (rect_width rect) (rect_y rect + rect_height rect - y - comp_height component)] else [])"

text \<open>Lines 211-213: \<open>rect2\<close> contains \<open>rect1\<close>, not strictly.\<close>

definition contains :: "rectangle \<Rightarrow> rectangle \<Rightarrow> bool" where
  "contains rect2 rect1 =
     (rect_x rect2 \<le> rect_x rect1 \<and> rect_y rect2 \<le> rect_y rect1 \<and>
      rect_x rect2 + rect_width rect2 \<ge> rect_x rect1 + rect_width rect1 \<and>
      rect_y rect2 + rect_height rect2 \<ge> rect_y rect1 + rect_height rect1)"

text \<open>
  The inner loop of \<open>remove_redundant_rectangles\<close> for the rectangle at index \<open>i\<close>: some
  other index \<open>j\<close> holds a rectangle that contains it.
\<close>

definition is_redundant :: "rectangle list \<Rightarrow> nat \<Rightarrow> bool" where
  "is_redundant rectangles i =
     list_ex (\<lambda>j. i \<noteq> j \<and> contains (rectangles ! j) (rectangles ! i)) [0..<length rectangles]"

definition remove_redundant_rectangles :: "rectangle list \<Rightarrow> rectangle list" where
  "remove_redundant_rectangles rectangles =
     map (\<lambda>i. rectangles ! i) (filter (\<lambda>i. \<not> is_redundant rectangles i) [0..<length rectangles])"

section \<open>place\_component\<close>

text \<open>Lines 189-190 and 272-273: the free rectangle meets the component placed at \<open>(x, y)\<close>.\<close>

definition intersects :: "rectangle \<Rightarrow> component \<Rightarrow> int \<Rightarrow> int \<Rightarrow> bool" where
  "intersects rect component x y =
     (x < rect_x rect + rect_width rect \<and> x + comp_width component > rect_x rect \<and>
      y < rect_y rect + rect_height rect \<and> y + comp_height component > rect_y rect)"

text \<open>Lines 186-196 and 270-277: the loop that builds \<open>new_free_rectangles\<close>.\<close>

definition new_free_rectangles :: "rectangle list \<Rightarrow> component \<Rightarrow> int \<Rightarrow> int \<Rightarrow> rectangle list" where
  "new_free_rectangles rects component x y =
     concat (map (\<lambda>rect. if intersects rect component x y
                          then split_free_rectangle rect component x y
                          else [rect]) rects)"

text \<open>
  Lines 181-199, and again lines 265-279 for the second connector: write the position
  into the object, append the object to the placed list, update the free rectangles.
\<close>

definition commit :: "placer \<Rightarrow> ref \<Rightarrow> int \<Rightarrow> int \<Rightarrow> placer" where
  "commit s c x y =
     (let component = (objects s c)\<lparr>comp_x := x, comp_y := y\<rparr>
      in s\<lparr>placed_components := placed_components s @ [c],
           free_rectangles :=
             remove_redundant_rectangles (new_free_rectangles (free_rectangles s) component x y),
           objects := (objects s)(c := component)\<rparr>)"

text \<open>Lines 172-175: one round of the loop over the heuristics.\<close>

definition choose_best :: "int \<times> int \<times> score \<Rightarrow> int \<times> int \<times> score \<Rightarrow> int \<times> int \<times> score" where
  "choose_best r best =
     (case r of (x, y, sc) \<Rightarrow>
      case best of (best_x, best_y, best_score) \<Rightarrow>
        if x \<noteq> -1 \<and> score_less sc best_score then (x, y, sc) else best)"

definition heuristics :: "placer \<Rightarrow> ref \<Rightarrow> (int \<times> int \<times> score) list" where
  "heuristics s c =
     [find_best_position_bssf s c, find_best_position_blsf s c, find_best_position_baf s c]"

definition place_component :: "placer \<Rightarrow> ref \<Rightarrow> bool \<times> placer" where
  "place_component s c =
     (case fold choose_best (heuristics s c) (-1, -1, Infinity) of
        (best_x, best_y, best_score) \<Rightarrow>
          if best_x = -1 then (False, s) else (True, commit s c best_x best_y))"

section \<open>The MikroBus connectors\<close>

definition check_mikrobus_parallel_constraint :: "placer \<Rightarrow> ref \<Rightarrow> ref \<Rightarrow> bool" where
  "check_mikrobus_parallel_constraint s r1 r2 =
     (let mb1 = objects s r1; mb2 = objects s r2;
          mb1_on_left = (comp_x mb1 = 0);
          mb1_on_right = (comp_x mb1 + comp_width mb1 = board_width s);
          mb1_on_top = (comp_y mb1 = 0);
          mb1_on_bottom = (comp_y mb1 + comp_height mb1 = board_height s);
          mb2_on_left = (comp_x mb2 = 0);
          mb2_on_right = (comp_x mb2 + comp_width mb2 = board_width s);
          mb2_on_top = (comp_y mb2 = 0);
          mb2_on_bottom = (comp_y mb2 + comp_height mb2 = board_height s);
          opposite_horizontal = ((mb1_on_left \<and> mb2_on_right) \<or> (mb1_on_right \<and> mb2_on_left));
          opposite_vertical = ((mb1_on_top \<and> mb2_on_bottom) \<or> (mb1_on_bottom \<and> mb2_on_top))
      in opposite_horizontal \<or> opposite_vertical)"

text \<open>\<open>[v for v in range(46) if v % 5 == 0]\<close>\<close>

definition grid :: "int list" where
  "grid = filter (\<lambda>v. v mod 5 = 0) [0..45]"

text \<open>Lines 247-260.\<close>

definition target_positions :: "placer \<Rightarrow> ref \<Rightarrow> (int \<times> int) list" where
  "target_positions s r1 =
     (let mb1 = objects s r1 in
      if comp_x mb1 = 0 then map (\<lambda>y. (45, y)) grid
      else if comp_x mb1 + comp_width mb1 = board_width s then map (\<lambda>y. (0, y)) grid
      else if comp_y mb1 = 0 then map (\<lambda>x. (x, 45)) grid
      else if comp_y mb1 + comp_height mb1 = board_height s then map (\<lambda>x. (x, 0)) grid
      else [])"

text \<open>Lines 263-282: the first valid target position is committed.\<close>

fun try_positions :: "placer \<Rightarrow> ref \<Rightarrow> (int \<times> int) list \<Rightarrow> bool \<times> placer" where
  "try_positions s mb2 [] = (False, s)"
| "try_positions s mb2 ((x, y) # rest) =
     (if is_position_valid s mb2 x y then (True, commit s mb2 x y)
      else try_positions s mb2 rest)"

definition force_mikrobus_placement :: "placer \<Rightarrow> ref \<Rightarrow> ref \<Rightarrow> bool \<times> placer" where
  "force_mikrobus_placement s mb1 mb2 =
     (case place_component s mb1 of
        (ok, s1) \<Rightarrow>
          if \<not> ok then (False, s1)
          else try_positions s1 mb2 (target_positions s1 mb1))"

section \<open>Sequences of calls\<close>

datatype call = Place ref | Force ref ref

fun step :: "placer \<Rightarrow> call \<Rightarrow> placer" where
  "step s (Place c) = snd (place_component s c)"
| "step s (Force mb1 mb2) = snd (force_mikrobus_placement s mb1 mb2)"

definition run :: "placer \<Rightarrow> call list \<Rightarrow> placer" where
  "run s calls = foldl step s calls"

fun call_refs :: "call \<Rightarrow> ref list" where
  "call_refs (Place c) = [c]"
| "call_refs (Force mb1 mb2) = [mb1, mb2]"

text \<open>
  A call is fresh when no object it is given is placed already, so that no component is
  positioned a second time.
\<close>

fun fresh :: "placer \<Rightarrow> call \<Rightarrow> bool" where
  "fresh s (Place c) = (c \<notin> set (placed_components s))"
| "fresh s (Force mb1 mb2) =
     (mb1 \<notin> set (placed_components s) \<and>
      mb2 \<notin> set (placed_components (snd (place_component s mb1))))"

fun fresh_run :: "placer \<Rightarrow> call list \<Rightarrow> bool" where
  "fresh_run s [] = True"
| "fresh_run s (call # calls) = (fresh s call \<and> fresh_run (step s call) calls)"

section \<open>The demonstration components\<close>

text \<open>The constructor of the dataclass, with its defaults \<open>x = 0\<close>, \<open>y = 0\<close>,
  \<open>can_place_anywhere = True\<close>.\<close>

definition Component :: "string \<Rightarrow> int \<Rightarrow> int \<Rightarrow> bool \<Rightarrow> string option \<Rightarrow> real \<Rightarrow> component" where
  "Component n w h e t d =
     \<lparr>comp_name = n, comp_width = w, comp_height = h, comp_x = 0, comp_y = 0,
      must_be_on_edge = e, can_place_anywhere = True, proximity_target = t,
      max_proximity_distance = d\<rparr>"

text \<open>Lines 284-314.\<close>

definition create_components :: "component list" where
  "create_components =
     [Component ''USB_CONNECTOR'' 5 5 True None 0,
      Component ''MIKROBUS_CONNECTOR_1'' 5 5 True None 0,
      Component ''MIKROBUS_CONNECTOR_2'' 5 5 True None 0,
      Component ''MICROCONTROLLER'' 5 5 False None 0,
      Component ''CRYSTAL'' 5 5 False (Some ''MICROCONTROLLER'') 10]"

text \<open>A store whose object \<open>r\<close> is the \<open>r\<close>-th component of a list.\<close>

definition objects_of :: "component list \<Rightarrow> ref \<Rightarrow> component" where
  "objects_of cs r = (if r < length cs then cs ! r else Component [] 0 0 False None 0)"

section \<open>Notions used to state the properties\<close>

text \<open>The local variables of the heuristics' loop bodies, as functions of the rectangle.\<close>

definition leftover_horizontal :: "component \<Rightarrow> rectangle \<Rightarrow> int" where
  "leftover_horizontal component rect = rect_width rect - comp_width component"

definition leftover_vertical :: "component \<Rightarrow> rectangle \<Rightarrow> int" where
  "leftover_vertical component rect = rect_height rect - comp_height component"

definition short_side :: "component \<Rightarrow> rectangle \<Rightarrow> int" where
  "short_side component rect =
     min (leftover_horizontal component rect) (leftover_vertical component rect)"

definition long_side :: "component \<Rightarrow> rectangle \<Rightarrow> int" where
  "long_side component rect =
     max (leftover_horizontal component rect) (leftover_vertical component rect)"

definition area_fit :: "component \<Rightarrow> rectangle \<Rightarrow> int" where
  "area_fit component rect = leftover_horizontal component rect * leftover_vertical component rect"

text \<open>
  A free rectangle is a candidate for the component when it is large enough and its
  top-left corner is a valid position; the candidates are taken in the order of the pool.
\<close>

definition candidate :: "placer \<Rightarrow> ref \<Rightarrow> rectangle \<Rightarrow> bool" where
  "candidate s c rect =
     (rect_width rect \<ge> comp_width (objects s c) \<and> rect_height rect \<ge> comp_height (objects s c) \<and>
      is_position_valid s c (rect_x rect) (rect_y rect))"

definition candidates :: "placer \<Rightarrow> ref \<Rightarrow> rectangle list" where
  "candidates s c = filter (candidate s c) (free_rectangles s)"

text \<open>Smaller first key wins; on equal first keys the smaller second key wins.\<close>

definition lex_less :: "(rectangle \<Rightarrow> int) \<Rightarrow> (rectangle \<Rightarrow> int) \<Rightarrow> rectangle \<Rightarrow> rectangle \<Rightarrow> bool" where
  "lex_less k1 k2 a b = (k1 a < k1 b \<or> (k1 a = k1 b \<and> k2 a < k2 b))"

text \<open>
  \<open>r\<close> is the first best element of the list: strictly better than everything before it,
  and nothing after it is strictly better.
\<close>

definition first_minimal :: "(rectangle \<Rightarrow> rectangle \<Rightarrow> bool) \<Rightarrow> rectangle list \<Rightarrow> rectangle \<Rightarrow> bool" where
  "first_minimal lt cands r =
     (\<exists>pre post. cands = pre @ r # post \<and> (\<forall>p\<in>set pre. lt r p) \<and> (\<forall>q\<in>set post. \<not> lt q r))"

text \<open>The common shape of the three loop bodies.\<close>

definition gen_step :: "(rectangle \<Rightarrow> bool) \<Rightarrow> (rectangle \<Rightarrow> int) \<Rightarrow> (rectangle \<Rightarrow> int) \<Rightarrow> rectangle \<Rightarrow> best \<Rightarrow> best" where
  "gen_step ok k1 k2 rect best =
     (case best of (bx, by, b1, b2) \<Rightarrow>
        if ok rect \<and> (score_less (Finite (k1 rect)) b1 \<or>
                       (Finite (k1 rect) = b1 \<and> score_less (Finite (k2 rect)) b2))
        then (rect_x rect, rect_y rect, Finite (k1 rect), Finite (k2 rect)) else best)"

definition best_of :: "(rectangle \<Rightarrow> int) \<Rightarrow> (rectangle \<Rightarrow> int) \<Rightarrow> rectangle \<Rightarrow> best" where
  "best_of k1 k2 r = (rect_x r, rect_y r, Finite (k1 r), Finite (k2 r))"

text \<open>No two entries of the list are equal, and none contains another.\<close>

definition antichain :: "rectangle list \<Rightarrow> bool" where
  "antichain rs = (distinct rs \<and> (\<forall>a\<in>set rs. \<forall>b\<in>set rs. contains a b \<longrightarrow> a = b))"

section \<open>The invariants\<close>

text \<open>Lines 469-471 of \<open>validate_all_constraints\<close>: the component lies on the board.\<close>

definition within_board :: "placer \<Rightarrow> component \<Rightarrow> bool" where
  "within_board s p =
     (0 \<le> comp_x p \<and> 0 \<le> comp_y p \<and> comp_x p + comp_width p \<le> board_width s \<and>
      comp_y p + comp_height p \<le> board_height s)"

text \<open>Lines 480-483 of \<open>validate_all_constraints\<close>: two components do not overlap.\<close>

definition no_overlap :: "component \<Rightarrow> component \<Rightarrow> bool" where
  "no_overlap comp1 comp2 =
     (comp_x comp1 \<ge> comp_x comp2 + comp_width comp2 \<or>
      comp_x comp1 + comp_width comp1 \<le> comp_x comp2 \<or>
      comp_y comp1 \<ge> comp_y comp2 + comp_height comp2 \<or>
      comp_y comp1 + comp_height comp1 \<le> comp_y comp2)"

text \<open>The unit cells of the board, of a component at its position, and of a rectangle.\<close>

definition board_cells :: "placer \<Rightarrow> (int \<times> int) set" where
  "board_cells s = {(i, j). 0 \<le> i \<and> i < board_width s \<and> 0 \<le> j \<and> j < board_height s}"

definition comp_cells :: "component \<Rightarrow> (int \<times> int) set" where
  "comp_cells p =
     {(i, j). comp_x p \<le> i \<and> i < comp_x p + comp_width p \<and>
              comp_y p \<le> j \<and> j < comp_y p + comp_height p}"

definition rect_cells :: "rectangle \<Rightarrow> (int \<times> int) set" where
  "rect_cells r =
     {(i, j). rect_x r \<le> i \<and> i < rect_x r + rect_width r \<and>
              rect_y r \<le> j \<and> j < rect_y r + rect_height r}"

text \<open>The placed components lie on the board, and no two different ones overlap.\<close>

definition placed_invariant :: "placer \<Rightarrow> bool" where
  "placed_invariant s =
     ((\<forall>p\<in>set (placed_components s). within_board s (objects s p)) \<and>
      (\<forall>p\<in>set (placed_components s). \<forall>q\<in>set (placed_components s).
         p \<noteq> q \<longrightarrow> no_overlap (objects s p) (objects s q)))"

text \<open>The free rectangle meets the placed component (the test of lines 189-190 at its position).\<close>

definition meets :: "rectangle \<Rightarrow> component \<Rightarrow> bool" where
  "meets rect p = intersects rect p (comp_x p) (comp_y p)"

text \<open>The pool is an antichain, and no free rectangle meets a placed component.\<close>

definition pool_invariant :: "placer \<Rightarrow> bool" where
  "pool_invariant s =
     (antichain (free_rectangles s) \<and>
      (\<forall>r\<in>set (free_rectangles s). \<forall>p\<in>set (placed_components s). \<not> meets r (objects s p)))"

text \<open>Every cell of the board lies in a free rectangle or in a placed component.\<close>

definition covers :: "placer \<Rightarrow> bool" where
  "covers s =
     (board_cells s \<subseteq> (\<Union>r\<in>set (free_rectangles s). rect_cells r) \<union>
                      (\<Union>p\<in>set (placed_components s). comp_cells (objects s p)))"

section \<open>Example boards\<close>

text \<open>
  A 4 by 4 board after a 1 by 2 component was placed (at the origin): the free
  rectangles are \<open>(1, 0, 3, 4)\<close> and \<open>(0, 2, 4, 2)\<close>, and a 3 by 2 component fits both with
  no leftover on its short side.
\<close>

definition tie_components :: "component list" where
  "tie_components = [Component ''A'' 1 2 False None 0, Component ''B'' 3 2 False None 0]"

definition tie_state :: placer where
  "tie_state = snd (place_component (PCBPlacer 4 4 (objects_of tie_components)) 0)"

text \<open>A 3 by 3 board, too small for the 5 by 5 demonstration components.\<close>

definition small_board :: placer where
  "small_board = PCBPlacer 3 3 (objects_of create_components)"

text \<open>
  The four calls of \<open>solve_pcb_placement\<close> (lines 330, 336, 342 and 348) on its 50 by 50
  board; the objects 0 to 4 are the components of \<open>create_components\<close>, in that order.
\<close>

definition demo_calls :: "call list" where
  "demo_calls = [Place 0, Force 1 2, Place 3, Place 4]"

definition demo_board :: placer where
  "demo_board = run (PCBPlacer 50 50 (objects_of create_components)) demo_calls"

text \<open>The same 1 by 2 component object passed to \<open>place_component\<close> twice, on a 4 by 4 board.\<close>

definition placed_twice :: placer where
  "placed_twice = run (PCBPlacer 4 4 (objects_of tie_components)) [Place 0, Place 0]"

text \<open>
  A 50 by 50 board with a 5 by 5 connector and a 10 by 10 connector: no position with
  \<open>x = 45\<close> keeps the second one on the board.
\<close>

definition wide_components :: "component list" where
  "wide_components = [Component ''MB1'' 5 5 True None 0, Component ''MB2'' 10 10 True None 0]"

definition wide_board :: placer where
  "wide_board = PCBPlacer 50 50 (objects_of wide_components)"

text \<open>
  The demonstration board after the USB connector and both MikroBus connectors, with a
  44 by 44 component that fits only the free rectangle at \<open>(5, 5)\<close>, and a 1 by 1 component.
\<close>

definition inner_components :: "component list" where
  "inner_components = create_components @
     [Component ''BIG'' 44 44 False None 0, Component ''SMALL'' 1 1 False None 0]"

definition inner_board :: placer where
  "inner_board = run (PCBPlacer 50 50 (objects_of inner_components)) [Place 0, Force 1 2]"

text \<open>
  A 50 by 50 board on which a component whose name is the empty string is placed; the
  second component names it as its proximity target, with distance 0.
\<close>

definition unnamed_components :: "component list" where
  "unnamed_components = [Component [] 5 5 False None 0, Component ''CRYSTAL'' 5 5 False (Some []) 0]"

definition unnamed_board :: placer where
  "unnamed_board = run (PCBPlacer 50 50 (objects_of unnamed_components)) [Place 0]"

text \<open>The demonstration board before the crystal is placed.\<close>

definition crystal_board :: placer where
  "crystal_board = run (PCBPlacer 50 50 (objects_of create_components)) [Place 0, Force 1 2, Place 3]"

text \<open>The demonstration components on a 100 by 100 board.\<close>

definition big_board :: placer where
  "big_board = PCBPlacer 100 100 (objects_of create_components)"

section \<open>The comparison of the distance\<close>

lemma too_far_code [code]:
  "too_far component x y target =
     (let d = max_proximity_distance component;
          n = (x + comp_width component div 2 - (comp_x target + comp_width target div 2))\<^sup>2 +
              (y + comp_height component div 2 - (comp_y target + comp_height target div 2))\<^sup>2
      in d < 0 \<or> d * d < real_of_int n)"
proof -
  define n where "n = (x + comp_width component div 2 - (comp_x target + comp_width target div 2))\<^sup>2 +
              (y + comp_height component div 2 - (comp_y target + comp_height target div 2))\<^sup>2"
  define d where "d = max_proximity_distance component"
  have n0: "0 \<le> real_of_int n" by (simp add: n_def)
  have "(d < sqrt (real_of_int n)) = (d < 0 \<or> d * d < real_of_int n)"
  proof (cases "d < 0")
    case True
    then have "d < sqrt (real_of_int n)" using n0 by (meson less_le_trans real_sqrt_ge_zero)
    with True show ?thesis by simp
  next
    case False
    then have "(d < sqrt (real_of_int n)) = (sqrt (d * d) < sqrt (real_of_int n))"
      by simp
    also have "\<dots> = (d * d < real_of_int n)" by (rule real_sqrt_less_iff)
    finally show ?thesis using False by simp
  qed
  then show ?thesis
    by (simp add: too_far_def center_distance_def Let_def n_def d_def)
qed

section \<open>Pruning\<close>

lemma contains_refl: "contains r r"
  by (simp add: contains_def)

lemma contains_trans: "contains a b \<Longrightarrow> contains b c \<Longrightarrow> contains a c"
  by (auto simp: contains_def)

lemma contains_antisym: "contains a b \<Longrightarrow> contains b a \<Longrightarrow> a = (b::rectangle)"
  by (cases a, cases b) (auto simp: contains_def)

lemma is_redundant_iff:
  "is_redundant rs i = (\<exists>j<length rs. i \<noteq> j \<and> contains (rs ! j) (rs ! i))"
  by (auto simp: is_redundant_def list_ex_iff)

lemma set_remove_redundant:
  "set (remove_redundant_rectangles rs) = {rs ! i | i. i < length rs \<and> \<not> is_redundant rs i}"
  by (auto simp: remove_redundant_rectangles_def)

lemma remove_redundant_subset: "set (remove_redundant_rectangles rs) \<subseteq> set rs"
  by (auto simp: set_remove_redundant)

lemma distinct_remove_redundant: "distinct (remove_redundant_rectangles rs)"
proof -
  have "inj_on (\<lambda>i. rs ! i) (set (filter (\<lambda>i. \<not> is_redundant rs i) [0..<length rs]))"
  proof (rule inj_onI)
    fix i k
    assume i: "i \<in> set (filter (\<lambda>i. \<not> is_redundant rs i) [0..<length rs])"
       and k: "k \<in> set (filter (\<lambda>i. \<not> is_redundant rs i) [0..<length rs])"
       and eq: "rs ! i = rs ! k"
    show "i = k"
    proof (rule ccontr)
      assume "i \<noteq> k"
      with i k eq have "is_redundant rs i"
        by (auto simp: is_redundant_iff contains_refl intro!: exI[of _ k])
      with i show False by simp
    qed
  qed
  then show ?thesis
    by (simp add: remove_redundant_rectangles_def distinct_map)
qed

text \<open>What survives the pruning is an antichain, and pruning leaves an antichain as it is.\<close>

lemma antichain_remove_redundant: "antichain (remove_redundant_rectangles rs)"
proof -
  have "a = b" if a: "a \<in> set (remove_redundant_rectangles rs)"
    and b: "b \<in> set (remove_redundant_rectangles rs)" and c: "contains a b" for a b
  proof -
    from a obtain i where i: "i < length rs" "a = rs ! i" "\<not> is_redundant rs i"
      by (auto simp: set_remove_redundant)
    from b obtain k where k: "k < length rs" "b = rs ! k" "\<not> is_redundant rs k"
      by (auto simp: set_remove_redundant)
    have "k = i"
    proof (rule ccontr)
      assume "k \<noteq> i"
      with i k c have "is_redundant rs k" by (auto simp: is_redundant_iff)
      with k show False by simp
    qed
    with i k show ?thesis by simp
  qed
  then show ?thesis
    unfolding antichain_def using distinct_remove_redundant by blast
qed

lemma remove_redundant_antichain_id:
  assumes "antichain rs"
  shows "remove_redundant_rectangles rs = rs"
proof -
  have "\<not> is_redundant rs i" if "i < length rs" for i
  proof
    assume "is_redundant rs i"
    then obtain j where j: "j < length rs" "i \<noteq> j" "contains (rs ! j) (rs ! i)"
      by (auto simp: is_redundant_iff)
    with assms that have "rs ! j = rs ! i" by (auto simp: antichain_def)
    with assms that j show False by (auto simp: antichain_def nth_eq_iff_index_eq)
  qed
  then have "filter (\<lambda>i. \<not> is_redundant rs i) [0..<length rs] = [0..<length rs]"
    by (auto simp: filter_id_conv)
  then show ?thesis by (simp add: remove_redundant_rectangles_def map_nth)
qed

text \<open>
  C8. Pruning is idempotent: \<open>remove_redundant_rectangles\<close> applied to its own result
  returns that result, for every list of rectangles.
\<close>

theorem remove_redundant_idempotent:
  "remove_redundant_rectangles (remove_redundant_rectangles rs) = remove_redundant_rectangles rs"
  by (rule remove_redundant_antichain_id [OF antichain_remove_redundant])

text \<open>
  C9, as amended. When two different indices of the input hold rectangles that contain
  each other (then the two are the same rectangle), both entries are redundant, and the
  rectangle does not occur in the result at all: the containment test is not strict and
  runs against every other entry of the input, removed or not. When moreover no other
  rectangle of the input contains it, no rectangle of the result contains it, so the
  pool no longer offers that area as a whole; a pool of two copies of one rectangle is
  pruned to the empty pool.
\<close>

theorem duplicates_both_removed:
  assumes "i < length rs" "j < length rs" "i \<noteq> j"
    and "contains (rs ! i) (rs ! j)" "contains (rs ! j) (rs ! i)"
  shows "rs ! i = rs ! j \<and> is_redundant rs i \<and> is_redundant rs j \<and>
         rs ! i \<notin> set (remove_redundant_rectangles rs) \<and>
         rs ! j \<notin> set (remove_redundant_rectangles rs) \<and>
         ((\<forall>k<length rs. contains (rs ! k) (rs ! i) \<longrightarrow> rs ! k = rs ! i) \<longrightarrow>
            (\<forall>m\<in>set (remove_redundant_rectangles rs). \<not> contains m (rs ! i)))"
proof -
  have eq: "rs ! i = rs ! j" using assms(4,5) by (rule contains_antisym)
  have ri: "is_redundant rs i" using assms by (auto simp: is_redundant_iff)
  have rj: "is_redundant rs j" using assms by (auto simp: is_redundant_iff)
  have out: "rs ! i \<notin> set (remove_redundant_rectangles rs)"
  proof
    assume "rs ! i \<in> set (remove_redundant_rectangles rs)"
    then obtain k where k: "k < length rs" "rs ! k = rs ! i" "\<not> is_redundant rs k"
      by (auto simp: set_remove_redundant)
    show False
    proof (cases "k = i")
      case True with ri k show False by simp
    next
      case False
      with k assms(1) have "is_redundant rs k"
        by (auto simp: is_redundant_iff contains_refl intro!: exI[of _ i])
      with k show False by simp
    qed
  qed
  have none: "\<not> contains m (rs ! i)"
    if a: "\<forall>k<length rs. contains (rs ! k) (rs ! i) \<longrightarrow> rs ! k = rs ! i"
    and m: "m \<in> set (remove_redundant_rectangles rs)" for m
  proof
    assume c: "contains m (rs ! i)"
    from m obtain k where k: "k < length rs" "m = rs ! k" by (auto simp: set_remove_redundant)
    with a c have "m = rs ! i" by auto
    with m out show False by simp
  qed
  from eq ri rj out none show ?thesis by auto
qed

text \<open>A pool of two copies of the 5 by 5 rectangle at the origin is pruned to the empty pool.\<close>

theorem duplicates_both_removed_witness:
  "(0::nat) < length [Rectangle 0 0 5 5, Rectangle 0 0 5 5] \<and>
   (1::nat) < length [Rectangle 0 0 5 5, Rectangle 0 0 5 5] \<and>
   contains ([Rectangle 0 0 5 5, Rectangle 0 0 5 5] ! 0) ([Rectangle 0 0 5 5, Rectangle 0 0 5 5] ! 1) \<and>
   contains ([Rectangle 0 0 5 5, Rectangle 0 0 5 5] ! 1) ([Rectangle 0 0 5 5, Rectangle 0 0 5 5] ! 0) \<and>
   Rectangle 0 0 5 5 \<notin> set (remove_redundant_rectangles [Rectangle 0 0 5 5, Rectangle 0 0 5 5]) \<and>
   remove_redundant_rectangles [Rectangle 0 0 5 5, Rectangle 0 0 5 5] = []"
proof -
  have c: "contains (Rectangle 0 0 5 5) (Rectangle 0 0 5 5)" by (rule contains_refl)
  have "remove_redundant_rectangles [Rectangle 0 0 5 5, Rectangle 0 0 5 5] = []"
    by (simp add: remove_redundant_rectangles_def is_redundant_def contains_def)
  with c duplicates_both_removed [of 0 "[Rectangle 0 0 5 5, Rectangle 0 0 5 5]" 1]
  show ?thesis by simp
qed

text \<open>
  C9 as it is stated fails where it says that the area of the duplicates is deleted from
  the pool: with a third rectangle that contains them, the two copies are removed and the
  third survives, so every cell of the copies is still in the pool.
\<close>

theorem duplicates_area_kept_counterexample:
  "contains ([Rectangle 0 0 5 5, Rectangle 0 0 5 5, Rectangle 0 0 10 10] ! 0)
            ([Rectangle 0 0 5 5, Rectangle 0 0 5 5, Rectangle 0 0 10 10] ! 1) \<and>
   contains ([Rectangle 0 0 5 5, Rectangle 0 0 5 5, Rectangle 0 0 10 10] ! 1)
            ([Rectangle 0 0 5 5, Rectangle 0 0 5 5, Rectangle 0 0 10 10] ! 0) \<and>
   remove_redundant_rectangles [Rectangle 0 0 5 5, Rectangle 0 0 5 5, Rectangle 0 0 10 10]
     = [Rectangle 0 0 10 10] \<and>
   (0, 0) \<in> rect_cells (Rectangle 0 0 5 5) \<and>
   rect_cells (Rectangle 0 0 5 5)
     \<subseteq> \<Union> (rect_cells ` set (remove_redundant_rectangles
           [Rectangle 0 0 5 5, Rectangle 0 0 5 5, Rectangle 0 0 10 10]))"
proof -
  have r: "remove_redundant_rectangles [Rectangle 0 0 5 5, Rectangle 0 0 5 5, Rectangle 0 0 10 10]
     = [Rectangle 0 0 10 10]"
    by code_simp
  have c: "(0, 0) \<in> rect_cells (Rectangle 0 0 5 5)"
    by (simp add: rect_cells_def Rectangle_def)
  have s: "rect_cells (Rectangle 0 0 5 5) \<subseteq> rect_cells (Rectangle 0 0 10 10)"
    by (auto simp: rect_cells_def Rectangle_def)
  from r c s show ?thesis by (simp add: contains_refl)
qed

section \<open>The heuristics and the choice among them\<close>

lemma lex_less_trans: "lex_less k1 k2 a b \<Longrightarrow> lex_less k1 k2 b c \<Longrightarrow> lex_less k1 k2 a c"
  by (auto simp: lex_less_def)

lemma lex_less_trans2: "lex_less k1 k2 a b \<Longrightarrow> \<not> lex_less k1 k2 c b \<Longrightarrow> lex_less k1 k2 a c"
  by (auto simp: lex_less_def)

lemma gen_step_best_of:
  "gen_step ok k1 k2 x (best_of k1 k2 r) =
     (if ok x \<and> lex_less k1 k2 x r then best_of k1 k2 x else best_of k1 k2 r)"
  by (auto simp: gen_step_def best_of_def lex_less_def)

lemma gen_step_init:
  "gen_step ok k1 k2 x (-1, -1, Infinity, Infinity) =
     (if ok x then best_of k1 k2 x else (-1, -1, Infinity, Infinity))"
  by (auto simp: gen_step_def best_of_def)

lemma fold_gen_step:
  "(filter ok rs = [] \<and> fold (gen_step ok k1 k2) rs (-1, -1, Infinity, Infinity) = (-1, -1, Infinity, Infinity)) \<or>
   (\<exists>r. first_minimal (lex_less k1 k2) (filter ok rs) r \<and>
        fold (gen_step ok k1 k2) rs (-1, -1, Infinity, Infinity) = best_of k1 k2 r)"
proof (induction rs rule: rev_induct)
  case Nil
  show ?case by simp
next
  case (snoc x rs)
  show ?case
  proof (cases "ok x")
    case False
    with snoc show ?thesis by (auto simp: gen_step_def split: prod.splits)
  next
    case True
    from snoc show ?thesis
    proof
      assume "filter ok rs = [] \<and> fold (gen_step ok k1 k2) rs (-1, -1, Infinity, Infinity) = (-1, -1, Infinity, Infinity)"
      then have e: "filter ok rs = []"
        and f: "fold (gen_step ok k1 k2) rs (-1, -1, Infinity, Infinity) = (-1, -1, Infinity, Infinity)"
        by simp_all
      have "first_minimal (lex_less k1 k2) (filter ok (rs @ [x])) x"
        unfolding first_minimal_def using True e
        by (intro exI[of _ "[]"]) simp
      moreover have "fold (gen_step ok k1 k2) (rs @ [x]) (-1, -1, Infinity, Infinity) = best_of k1 k2 x"
        using True f by (simp add: gen_step_init)
      ultimately show ?thesis by blast
    next
      assume "\<exists>r. first_minimal (lex_less k1 k2) (filter ok rs) r \<and>
        fold (gen_step ok k1 k2) rs (-1, -1, Infinity, Infinity) = best_of k1 k2 r"
      then obtain r pre post where r: "filter ok rs = pre @ r # post"
        "\<forall>p\<in>set pre. lex_less k1 k2 r p" "\<forall>q\<in>set post. \<not> lex_less k1 k2 q r"
        "fold (gen_step ok k1 k2) rs (-1, -1, Infinity, Infinity) = best_of k1 k2 r"
        by (auto simp: first_minimal_def)
      show ?thesis
      proof (cases "lex_less k1 k2 x r")
        case lt: True
        have "filter ok (rs @ [x]) = (pre @ r # post) @ x # []" using True r by simp
        moreover have "\<forall>p\<in>set (pre @ r # post). lex_less k1 k2 x p"
          using r lt by (auto intro: lex_less_trans lex_less_trans2)
        ultimately have "first_minimal (lex_less k1 k2) (filter ok (rs @ [x])) x"
          unfolding first_minimal_def by (intro exI[of _ "pre @ r # post"] exI[of _ "[]"]) simp
        moreover have "fold (gen_step ok k1 k2) (rs @ [x]) (-1, -1, Infinity, Infinity) = best_of k1 k2 x"
          using r True lt by (simp add: gen_step_best_of)
        ultimately show ?thesis by blast
      next
        case nlt: False
        have "filter ok (rs @ [x]) = pre @ r # (post @ [x])" using True r by simp
        moreover have "\<forall>q\<in>set (post @ [x]). \<not> lex_less k1 k2 q r"
          using r nlt by auto
        ultimately have "first_minimal (lex_less k1 k2) (filter ok (rs @ [x])) r"
          unfolding first_minimal_def using r(2) by blast
        moreover have "fold (gen_step ok k1 k2) (rs @ [x]) (-1, -1, Infinity, Infinity) = best_of k1 k2 r"
          using r nlt by (simp add: gen_step_best_of)
        ultimately show ?thesis by blast
      qed
    qed
  qed
qed

lemma bssf_step_gen:
  "bssf_step s c = gen_step (candidate s c) (short_side (objects s c)) (long_side (objects s c))"
  by (auto simp: fun_eq_iff bssf_step_def gen_step_def candidate_def short_side_def long_side_def
      leftover_horizontal_def leftover_vertical_def Let_def)

lemma blsf_step_gen:
  "blsf_step s c = gen_step (candidate s c) (long_side (objects s c)) (short_side (objects s c))"
  by (auto simp: fun_eq_iff blsf_step_def gen_step_def candidate_def short_side_def long_side_def
      leftover_horizontal_def leftover_vertical_def Let_def)

lemma baf_step_gen:
  "baf_step s c = gen_step (candidate s c) (area_fit (objects s c)) (short_side (objects s c))"
  by (auto simp: fun_eq_iff baf_step_def gen_step_def candidate_def short_side_def area_fit_def
      leftover_horizontal_def leftover_vertical_def Let_def)


lemma first_minimal_mem: "first_minimal lt cs r \<Longrightarrow> r \<in> set cs"
  by (auto simp: first_minimal_def)

lemma first_minimal_least:
  "first_minimal lt cs r \<Longrightarrow> q \<in> set cs \<Longrightarrow> lt r q \<or> \<not> lt q r"
  by (auto simp: first_minimal_def)

lemma first_minimal_nonempty: "first_minimal lt cs r \<Longrightarrow> cs \<noteq> []"
  by (auto simp: first_minimal_def)

lemma bssf_result:
  "(candidates s c = [] \<and> find_best_position_bssf s c = (-1, -1, Infinity)) \<or>
   (\<exists>r. first_minimal (lex_less (short_side (objects s c)) (long_side (objects s c))) (candidates s c) r \<and>
        find_best_position_bssf s c = (rect_x r, rect_y r, Finite (short_side (objects s c) r)))"
  using fold_gen_step [of "candidate s c" "free_rectangles s" "short_side (objects s c)" "long_side (objects s c)"]
  by (auto simp: find_best_position_bssf_def bssf_step_gen candidates_def best_of_def)

lemma blsf_result:
  "(candidates s c = [] \<and> find_best_position_blsf s c = (-1, -1, Infinity)) \<or>
   (\<exists>r. first_minimal (lex_less (long_side (objects s c)) (short_side (objects s c))) (candidates s c) r \<and>
        find_best_position_blsf s c = (rect_x r, rect_y r, Finite (long_side (objects s c) r)))"
  using fold_gen_step [of "candidate s c" "free_rectangles s" "long_side (objects s c)" "short_side (objects s c)"]
  by (auto simp: find_best_position_blsf_def blsf_step_gen candidates_def best_of_def)

lemma baf_result:
  "(candidates s c = [] \<and> find_best_position_baf s c = (-1, -1, Infinity)) \<or>
   (\<exists>r. first_minimal (lex_less (area_fit (objects s c)) (short_side (objects s c))) (candidates s c) r \<and>
        find_best_position_baf s c = (rect_x r, rect_y r, Finite (area_fit (objects s c) r)))"
  using fold_gen_step [of "candidate s c" "free_rectangles s" "area_fit (objects s c)" "short_side (objects s c)"]
  by (auto simp: find_best_position_baf_def baf_step_gen candidates_def best_of_def)

lemma candidate_valid:
  "r \<in> set (candidates s c) \<Longrightarrow> is_position_valid s c (rect_x r) (rect_y r)"
  by (simp add: candidates_def candidate_def)

lemma valid_bounds:
  "is_position_valid s c x y \<Longrightarrow>
     0 \<le> x \<and> 0 \<le> y \<and> x + comp_width (objects s c) \<le> board_width s \<and>
     y + comp_height (objects s c) \<le> board_height s"
  by (auto simp: is_position_valid_def Let_def split: if_splits)

lemma candidate_not_sentinel: "r \<in> set (candidates s c) \<Longrightarrow> rect_x r \<noteq> -1"
  using valid_bounds [OF candidate_valid] by fastforce

lemma choose_three:
  assumes "x1 \<noteq> -1" "x2 \<noteq> -1" "x3 \<noteq> -1"
  shows "fold choose_best [(x1, y1, Finite a), (x2, y2, Finite b), (x3, y3, Finite d)] (-1, -1, Infinity) =
         (if b < a then (if d < b then (x3, y3, Finite d) else (x2, y2, Finite b))
          else (if d < a then (x3, y3, Finite d) else (x1, y1, Finite a)))"
  using assms by (simp add: choose_best_def)

lemma place_component_none:
  assumes "candidates s c = []"
  shows "place_component s c = (False, s)"
proof -
  have "find_best_position_bssf s c = (-1, -1, Infinity)"
    using bssf_result [of s c] assms by (auto dest: first_minimal_nonempty)
  moreover have "find_best_position_blsf s c = (-1, -1, Infinity)"
    using blsf_result [of s c] assms by (auto dest: first_minimal_nonempty)
  moreover have "find_best_position_baf s c = (-1, -1, Infinity)"
    using baf_result [of s c] assms by (auto dest: first_minimal_nonempty)
  ultimately show ?thesis
    by (simp add: place_component_def heuristics_def choose_best_def)
qed

lemma place_component_some:
  assumes "candidates s c \<noteq> []"
  shows "\<exists>r1 r2 r3.
     first_minimal (lex_less (short_side (objects s c)) (long_side (objects s c))) (candidates s c) r1 \<and>
     first_minimal (lex_less (long_side (objects s c)) (short_side (objects s c))) (candidates s c) r2 \<and>
     first_minimal (lex_less (area_fit (objects s c)) (short_side (objects s c))) (candidates s c) r3 \<and>
     heuristics s c =
       [(rect_x r1, rect_y r1, Finite (short_side (objects s c) r1)),
        (rect_x r2, rect_y r2, Finite (long_side (objects s c) r2)),
        (rect_x r3, rect_y r3, Finite (area_fit (objects s c) r3))] \<and>
     place_component s c =
       (True,
        if long_side (objects s c) r2 < short_side (objects s c) r1
        then (if area_fit (objects s c) r3 < long_side (objects s c) r2
              then commit s c (rect_x r3) (rect_y r3) else commit s c (rect_x r2) (rect_y r2))
        else (if area_fit (objects s c) r3 < short_side (objects s c) r1
              then commit s c (rect_x r3) (rect_y r3) else commit s c (rect_x r1) (rect_y r1)))"
proof -
  from bssf_result [of s c] assms obtain r1 where
    r1: "first_minimal (lex_less (short_side (objects s c)) (long_side (objects s c))) (candidates s c) r1"
        "find_best_position_bssf s c = (rect_x r1, rect_y r1, Finite (short_side (objects s c) r1))"
    by auto
  from blsf_result [of s c] assms obtain r2 where
    r2: "first_minimal (lex_less (long_side (objects s c)) (short_side (objects s c))) (candidates s c) r2"
        "find_best_position_blsf s c = (rect_x r2, rect_y r2, Finite (long_side (objects s c) r2))"
    by auto
  from baf_result [of s c] assms obtain r3 where
    r3: "first_minimal (lex_less (area_fit (objects s c)) (short_side (objects s c))) (candidates s c) r3"
        "find_best_position_baf s c = (rect_x r3, rect_y r3, Finite (area_fit (objects s c) r3))"
    by auto
  have n: "rect_x r1 \<noteq> -1" "rect_x r2 \<noteq> -1" "rect_x r3 \<noteq> -1"
    using r1(1) r2(1) r3(1) by (auto dest!: first_minimal_mem candidate_not_sentinel)
  have h: "heuristics s c =
       [(rect_x r1, rect_y r1, Finite (short_side (objects s c) r1)),
        (rect_x r2, rect_y r2, Finite (long_side (objects s c) r2)),
        (rect_x r3, rect_y r3, Finite (area_fit (objects s c) r3))]"
    by (simp add: heuristics_def r1 r2 r3)
  have "place_component s c =
       (True,
        if long_side (objects s c) r2 < short_side (objects s c) r1
        then (if area_fit (objects s c) r3 < long_side (objects s c) r2
              then commit s c (rect_x r3) (rect_y r3) else commit s c (rect_x r2) (rect_y r2))
        else (if area_fit (objects s c) r3 < short_side (objects s c) r1
              then commit s c (rect_x r3) (rect_y r3) else commit s c (rect_x r1) (rect_y r1)))"
    unfolding place_component_def h choose_three [OF n] using n by simp
  with r1(1) r2(1) r3(1) h show ?thesis by blast
qed

lemma place_component_cases:
  "place_component s c = (False, s) \<or>
   (\<exists>x y. is_position_valid s c x y \<and> place_component s c = (True, commit s c x y))"
proof (cases "candidates s c = []")
  case True
  then show ?thesis by (simp add: place_component_none)
next
  case False
  from place_component_some [OF False] obtain r1 r2 r3 where
    m: "r1 \<in> set (candidates s c)" "r2 \<in> set (candidates s c)" "r3 \<in> set (candidates s c)"
    and p: "place_component s c =
       (True,
        if long_side (objects s c) r2 < short_side (objects s c) r1
        then (if area_fit (objects s c) r3 < long_side (objects s c) r2
              then commit s c (rect_x r3) (rect_y r3) else commit s c (rect_x r2) (rect_y r2))
        else (if area_fit (objects s c) r3 < short_side (objects s c) r1
              then commit s c (rect_x r3) (rect_y r3) else commit s c (rect_x r1) (rect_y r1)))"
    by (auto dest: first_minimal_mem)
  from m have "is_position_valid s c (rect_x r1) (rect_y r1)"
    "is_position_valid s c (rect_x r2) (rect_y r2)" "is_position_valid s c (rect_x r3) (rect_y r3)"
    by (auto dest: candidate_valid)
  with p show ?thesis by (auto split: if_splits)
qed

text \<open>
  C4. \<open>place_component\<close> runs BSSF, BLSF and BAF. The candidates of a heuristic are the
  free rectangles, in pool order, that are large enough and whose top-left corner is a
  valid position. With no candidate the call fails and leaves the placer as it is.
  Otherwise each heuristic returns the corner of its first best candidate with that
  candidate's score (short side, long side, area of the leftover), and the call succeeds
  and commits the position of a heuristic whose score no other heuristic's score is
  below, the scores compared as plain integers: that position is written into the
  component, the component is appended to the placed list, and the free rectangles are
  split at that position and pruned.
\<close>

theorem place_component_heuristics:
  "(candidates s c = [] \<longrightarrow> place_component s c = (False, s)) \<and>
   (candidates s c \<noteq> [] \<longrightarrow>
     (\<exists>r1 r2 r3 k.
        first_minimal (lex_less (short_side (objects s c)) (long_side (objects s c))) (candidates s c) r1 \<and>
        find_best_position_bssf s c = (rect_x r1, rect_y r1, Finite (short_side (objects s c) r1)) \<and>
        first_minimal (lex_less (long_side (objects s c)) (short_side (objects s c))) (candidates s c) r2 \<and>
        find_best_position_blsf s c = (rect_x r2, rect_y r2, Finite (long_side (objects s c) r2)) \<and>
        first_minimal (lex_less (area_fit (objects s c)) (short_side (objects s c))) (candidates s c) r3 \<and>
        find_best_position_baf s c = (rect_x r3, rect_y r3, Finite (area_fit (objects s c) r3)) \<and>
        k < length (heuristics s c) \<and>
        (\<forall>j<length (heuristics s c).
           \<not> score_less (snd (snd (heuristics s c ! j))) (snd (snd (heuristics s c ! k)))) \<and>
        fst (place_component s c) = True \<and>
        board_width (snd (place_component s c)) = board_width s \<and>
        board_height (snd (place_component s c)) = board_height s \<and>
        objects (snd (place_component s c)) =
          (objects s)(c := (objects s c)
             \<lparr>comp_x := fst (heuristics s c ! k), comp_y := fst (snd (heuristics s c ! k))\<rparr>) \<and>
        placed_components (snd (place_component s c)) = placed_components s @ [c] \<and>
        free_rectangles (snd (place_component s c)) =
          remove_redundant_rectangles
            (new_free_rectangles (free_rectangles s) (objects s c)
               (fst (heuristics s c ! k)) (fst (snd (heuristics s c ! k))))))"
proof (intro conjI impI)
  assume "candidates s c = []"
  then show "place_component s c = (False, s)" by (rule place_component_none)
next
  assume "candidates s c \<noteq> []"
  from place_component_some [OF this] obtain r1 r2 r3 where
    f: "first_minimal (lex_less (short_side (objects s c)) (long_side (objects s c))) (candidates s c) r1"
       "first_minimal (lex_less (long_side (objects s c)) (short_side (objects s c))) (candidates s c) r2"
       "first_minimal (lex_less (area_fit (objects s c)) (short_side (objects s c))) (candidates s c) r3"
    and h: "heuristics s c =
       [(rect_x r1, rect_y r1, Finite (short_side (objects s c) r1)),
        (rect_x r2, rect_y r2, Finite (long_side (objects s c) r2)),
        (rect_x r3, rect_y r3, Finite (area_fit (objects s c) r3))]"
    and p: "place_component s c =
       (True,
        if long_side (objects s c) r2 < short_side (objects s c) r1
        then (if area_fit (objects s c) r3 < long_side (objects s c) r2
              then commit s c (rect_x r3) (rect_y r3) else commit s c (rect_x r2) (rect_y r2))
        else (if area_fit (objects s c) r3 < short_side (objects s c) r1
              then commit s c (rect_x r3) (rect_y r3) else commit s c (rect_x r1) (rect_y r1)))"
    by blast
  have b: "find_best_position_bssf s c = (rect_x r1, rect_y r1, Finite (short_side (objects s c) r1))"
    "find_best_position_blsf s c = (rect_x r2, rect_y r2, Finite (long_side (objects s c) r2))"
    "find_best_position_baf s c = (rect_x r3, rect_y r3, Finite (area_fit (objects s c) r3))"
    using h by (simp_all add: heuristics_def)
  have "\<exists>k<length (heuristics s c).
        (\<forall>j<length (heuristics s c).
           \<not> score_less (snd (snd (heuristics s c ! j))) (snd (snd (heuristics s c ! k)))) \<and>
        place_component s c =
          (True, commit s c (fst (heuristics s c ! k)) (fst (snd (heuristics s c ! k))))"
  proof (cases "long_side (objects s c) r2 < short_side (objects s c) r1")
    case True
    show ?thesis
    proof (cases "area_fit (objects s c) r3 < long_side (objects s c) r2")
      case a: True
      with True show ?thesis unfolding p h by (intro exI[of _ 2]) (auto simp: less_Suc_eq)
    next
      case a: False
      with True show ?thesis unfolding p h by (intro exI[of _ 1]) (auto simp: less_Suc_eq)
    qed
  next
    case False
    show ?thesis
    proof (cases "area_fit (objects s c) r3 < short_side (objects s c) r1")
      case a: True
      with False show ?thesis unfolding p h by (intro exI[of _ 2]) (auto simp: less_Suc_eq)
    next
      case a: False
      with False show ?thesis unfolding p h by (intro exI[of _ 0]) (auto simp: less_Suc_eq)
    qed
  qed
  then obtain k where k: "k < length (heuristics s c)"
    "\<forall>j<length (heuristics s c).
           \<not> score_less (snd (snd (heuristics s c ! j))) (snd (snd (heuristics s c ! k)))"
    "place_component s c =
          (True, commit s c (fst (heuristics s c ! k)) (fst (snd (heuristics s c ! k))))"
    by blast
  have e: "fst (place_component s c) = True"
    "board_width (snd (place_component s c)) = board_width s"
    "board_height (snd (place_component s c)) = board_height s"
    "objects (snd (place_component s c)) =
          (objects s)(c := (objects s c)
             \<lparr>comp_x := fst (heuristics s c ! k), comp_y := fst (snd (heuristics s c ! k))\<rparr>)"
    "placed_components (snd (place_component s c)) = placed_components s @ [c]"
    "free_rectangles (snd (place_component s c)) =
          remove_redundant_rectangles
            (new_free_rectangles (free_rectangles s) (objects s c)
               (fst (heuristics s c ! k)) (fst (snd (heuristics s c ! k))))"
    unfolding k(3) by (simp_all add: commit_def Let_def new_free_rectangles_def
        intersects_def split_free_rectangle_def cong: if_cong)
  from f b k(1,2) e show "\<exists>r1 r2 r3 k.
        first_minimal (lex_less (short_side (objects s c)) (long_side (objects s c))) (candidates s c) r1 \<and>
        find_best_position_bssf s c = (rect_x r1, rect_y r1, Finite (short_side (objects s c) r1)) \<and>
        first_minimal (lex_less (long_side (objects s c)) (short_side (objects s c))) (candidates s c) r2 \<and>
        find_best_position_blsf s c = (rect_x r2, rect_y r2, Finite (long_side (objects s c) r2)) \<and>
        first_minimal (lex_less (area_fit (objects s c)) (short_side (objects s c))) (candidates s c) r3 \<and>
        find_best_position_baf s c = (rect_x r3, rect_y r3, Finite (area_fit (objects s c) r3)) \<and>
        k < length (heuristics s c) \<and>
        (\<forall>j<length (heuristics s c).
           \<not> score_less (snd (snd (heuristics s c ! j))) (snd (snd (heuristics s c ! k)))) \<and>
        fst (place_component s c) = True \<and>
        board_width (snd (place_component s c)) = board_width s \<and>
        board_height (snd (place_component s c)) = board_height s \<and>
        objects (snd (place_component s c)) =
          (objects s)(c := (objects s c)
             \<lparr>comp_x := fst (heuristics s c ! k), comp_y := fst (snd (heuristics s c ! k))\<rparr>) \<and>
        placed_components (snd (place_component s c)) = placed_components s @ [c] \<and>
        free_rectangles (snd (place_component s c)) =
          remove_redundant_rectangles
            (new_free_rectangles (free_rectangles s) (objects s c)
               (fst (heuristics s c ! k)) (fst (snd (heuristics s c ! k))))"
    by blast
qed

text \<open>
  On the 3 by 3 board nothing fits and the call fails. On the 4 by 4 example board the
  heuristics return \<open>(0, 2)\<close>, \<open>(0, 2)\<close> and \<open>(1, 0)\<close> with the scores 0, 1 and 0; the call
  writes \<open>(0, 2)\<close> into the component, appends it to the placed list, and replaces the
  free rectangles \<open>(1, 0, 3, 4)\<close> and \<open>(0, 2, 4, 2)\<close> by \<open>(3, 0, 1, 4)\<close> and \<open>(1, 0, 3, 2)\<close>.
\<close>

theorem place_component_heuristics_witness:
  "candidates small_board 0 = [] \<and> place_component small_board 0 = (False, small_board) \<and>
   candidates tie_state 1 \<noteq> [] \<and> fst (place_component tie_state 1) = True \<and>
   heuristics tie_state 1 = [(0, 2, Finite 0), (0, 2, Finite 1), (1, 0, Finite 0)] \<and>
   placed_components tie_state = [0] \<and>
   placed_components (snd (place_component tie_state 1)) = [0, 1] \<and>
   comp_x (objects (snd (place_component tie_state 1)) 1) = 0 \<and>
   comp_y (objects (snd (place_component tie_state 1)) 1) = 2 \<and>
   free_rectangles tie_state = [Rectangle 1 0 3 4, Rectangle 0 2 4 2] \<and>
   free_rectangles (snd (place_component tie_state 1)) = [Rectangle 3 0 1 4, Rectangle 1 0 3 2]"
proof -
  have e: "candidates small_board 0 = []" by code_simp
  have n: "candidates tie_state 1 \<noteq> []" by code_simp
  have h: "heuristics tie_state 1 = [(0, 2, Finite 0), (0, 2, Finite 1), (1, 0, Finite 0)]"
    by code_simp
  have v: "placed_components tie_state = [0]"
    "free_rectangles tie_state = [Rectangle 1 0 3 4, Rectangle 0 2 4 2]"
    "comp_x (objects (snd (place_component tie_state 1)) 1) = 0"
    "comp_y (objects (snd (place_component tie_state 1)) 1) = 2"
    "free_rectangles (snd (place_component tie_state 1)) = [Rectangle 3 0 1 4, Rectangle 1 0 3 2]"
    by code_simp+
  from place_component_heuristics [of small_board 0] e
  have a: "place_component small_board 0 = (False, small_board)" by simp
  from place_component_heuristics [of tie_state 1] n
  have b: "fst (place_component tie_state 1) = True"
    "placed_components (snd (place_component tie_state 1)) = placed_components tie_state @ [1]"
    by auto
  from a b e n h v show ?thesis by simp
qed

text \<open>
  C10. A successful \<open>place_component\<close> commits the position returned by the first
  heuristic, in the order BSSF, BLSF, BAF, whose score is the smallest: every earlier
  heuristic has a strictly larger score, and no heuristic has a smaller one. So on equal
  scores the earlier heuristic's position is committed.
\<close>

theorem place_component_tie_break:
  assumes "place_component s c = (True, s')"
  shows "\<exists>k<length (heuristics s c).
      s' = commit s c (fst (heuristics s c ! k)) (fst (snd (heuristics s c ! k))) \<and>
      comp_x (objects s' c) = fst (heuristics s c ! k) \<and>
      comp_y (objects s' c) = fst (snd (heuristics s c ! k)) \<and>
      (\<forall>j<length (heuristics s c).
         \<not> score_less (snd (snd (heuristics s c ! j))) (snd (snd (heuristics s c ! k)))) \<and>
      (\<forall>j<k. score_less (snd (snd (heuristics s c ! k))) (snd (snd (heuristics s c ! j))))"
proof -
  have ne: "candidates s c \<noteq> []"
    using assms place_component_none [of s c] by auto
  from place_component_some [OF ne] obtain r1 r2 r3 where
    h: "heuristics s c =
       [(rect_x r1, rect_y r1, Finite (short_side (objects s c) r1)),
        (rect_x r2, rect_y r2, Finite (long_side (objects s c) r2)),
        (rect_x r3, rect_y r3, Finite (area_fit (objects s c) r3))]"
    and p: "place_component s c =
       (True,
        if long_side (objects s c) r2 < short_side (objects s c) r1
        then (if area_fit (objects s c) r3 < long_side (objects s c) r2
              then commit s c (rect_x r3) (rect_y r3) else commit s c (rect_x r2) (rect_y r2))
        else (if area_fit (objects s c) r3 < short_side (objects s c) r1
              then commit s c (rect_x r3) (rect_y r3) else commit s c (rect_x r1) (rect_y r1)))"
    by blast
  have cx: "comp_x (objects (commit s c x y) c) = x" "comp_y (objects (commit s c x y) c) = y" for x y
    by (simp_all add: commit_def Let_def)
  show ?thesis
  proof (cases "long_side (objects s c) r2 < short_side (objects s c) r1")
    case True
    show ?thesis
    proof (cases "area_fit (objects s c) r3 < long_side (objects s c) r2")
      case a: True
      with True assms show ?thesis unfolding p h by (intro exI[of _ 2]) (auto simp: less_Suc_eq less_2_cases_iff cx)
    next
      case a: False
      with True assms show ?thesis unfolding p h by (intro exI[of _ 1]) (auto simp: less_Suc_eq less_2_cases_iff cx)
    qed
  next
    case False
    show ?thesis
    proof (cases "area_fit (objects s c) r3 < short_side (objects s c) r1")
      case a: True
      with False assms show ?thesis unfolding p h by (intro exI[of _ 2]) (auto simp: less_Suc_eq less_2_cases_iff cx)
    next
      case a: False
      with False assms show ?thesis unfolding p h by (intro exI[of _ 0]) (auto simp: less_Suc_eq less_2_cases_iff cx)
    qed
  qed
qed

text \<open>
  On the example board BSSF and BAF both score 0, at the different positions \<open>(0, 2)\<close> and
  \<open>(1, 0)\<close>; the position of BSSF is committed.
\<close>

theorem place_component_tie_break_witness:
  "fst (place_component tie_state 1) = True \<and>
   heuristics tie_state 1 = [(0, 2, Finite 0), (0, 2, Finite 1), (1, 0, Finite 0)] \<and>
   comp_x (objects (snd (place_component tie_state 1)) 1) = 0 \<and>
   comp_y (objects (snd (place_component tie_state 1)) 1) = 2"
proof -
  have f: "fst (place_component tie_state 1) = True" by code_simp
  have h: "heuristics tie_state 1 = [(0, 2, Finite 0), (0, 2, Finite 1), (1, 0, Finite 0)]"
    by code_simp
  have h': "heuristics tie_state (Suc 0) = [(0, 2, Finite 0), (0, 2, Finite 1), (1, 0, Finite 0)]"
    using h by simp
  from f have p: "place_component tie_state 1 = (True, snd (place_component tie_state 1))"
    by (simp add: prod_eq_iff)
  from place_component_tie_break [OF p] obtain k where k: "k < length (heuristics tie_state 1)"
    "comp_x (objects (snd (place_component tie_state 1)) 1) = fst (heuristics tie_state 1 ! k)"
    "comp_y (objects (snd (place_component tie_state 1)) 1) = fst (snd (heuristics tie_state 1 ! k))"
    "\<forall>j<k. score_less (snd (snd (heuristics tie_state 1 ! k))) (snd (snd (heuristics tie_state 1 ! j)))"
    by blast
  have "k \<noteq> 2"
  proof
    assume "k = 2"
    with k(4) have "score_less (snd (snd (heuristics tie_state 1 ! 2))) (snd (snd (heuristics tie_state 1 ! 0)))"
      by simp
    then show False by (simp add: h')
  qed
  with k(1) have "k = 0 \<or> k = 1" by (auto simp: h')
  with k(2,3) have "comp_x (objects (snd (place_component tie_state 1)) 1) = 0 \<and>
    comp_y (objects (snd (place_component tie_state 1)) 1) = 2"
    by (auto simp: h')
  with f h show ?thesis by simp
qed

section \<open>Failure of place\_component\<close>

lemma heuristics_none:
  assumes "candidates s c = []"
  shows "heuristics s c = [(-1, -1, Infinity), (-1, -1, Infinity), (-1, -1, Infinity)]"
  using bssf_result [of s c] blsf_result [of s c] baf_result [of s c] assms
  by (auto simp: heuristics_def dest: first_minimal_nonempty)

text \<open>
  C6. When no heuristic produces a position (each returns \<open>best_x = -1\<close>),
  \<open>place_component\<close> returns \<open>False\<close> and the placer is the one it was called on: free
  rectangles, placed list and every object, so the position fields of the component,
  are unchanged. A failing call is always of this kind.
\<close>

theorem place_component_failure_no_mutation:
  "((\<forall>r\<in>set (heuristics s c). fst r = -1) \<longrightarrow> place_component s c = (False, s)) \<and>
   (fst (place_component s c) = False \<longrightarrow>
      (\<forall>r\<in>set (heuristics s c). fst r = -1) \<and> snd (place_component s c) = s)"
proof (intro conjI impI)
  assume "\<forall>r\<in>set (heuristics s c). fst r = -1"
  then show "place_component s c = (False, s)"
    by (auto simp: place_component_def heuristics_def choose_best_def split: prod.splits)
next
  assume f: "fst (place_component s c) = False"
  have "candidates s c = []"
  proof (rule ccontr)
    assume "candidates s c \<noteq> []"
    from place_component_some [OF this] have "fst (place_component s c) = True" by auto
    with f show False by simp
  qed
  then show "\<forall>r\<in>set (heuristics s c). fst r = -1" by (simp add: heuristics_none)
next
  assume "fst (place_component s c) = False"
  then show "snd (place_component s c) = s"
    by (auto simp: place_component_def split: prod.splits if_splits)
qed

theorem place_component_failure_no_mutation_witness:
  "heuristics small_board 0 = [(-1, -1, Infinity), (-1, -1, Infinity), (-1, -1, Infinity)] \<and>
   place_component small_board 0 = (False, small_board)"
proof -
  have h: "heuristics small_board 0 = [(-1, -1, Infinity), (-1, -1, Infinity), (-1, -1, Infinity)]"
    by code_simp
  with place_component_failure_no_mutation [of small_board 0] show ?thesis by simp
qed

section \<open>The placed components\<close>

lemma valid_no_overlap:
  "is_position_valid s c x y \<Longrightarrow> p \<in> set (placed_components s) \<Longrightarrow>
     \<not> overlaps_placed (objects s c) x y (objects s p)"
  by (auto simp: is_position_valid_def Let_def list_ex_iff split: if_splits)

lemma commit_simps [simp]:
  "placed_components (commit s c x y) = placed_components s @ [c]"
  "board_width (commit s c x y) = board_width s"
  "board_height (commit s c x y) = board_height s"
  "objects (commit s c x y) = (objects s)(c := (objects s c)\<lparr>comp_x := x, comp_y := y\<rparr>)"
  "free_rectangles (commit s c x y) =
     remove_redundant_rectangles
       (new_free_rectangles (free_rectangles s) ((objects s c)\<lparr>comp_x := x, comp_y := y\<rparr>) x y)"
  by (simp_all add: commit_def Let_def)

lemma no_overlap_sym: "no_overlap a b \<Longrightarrow> no_overlap b a"
  by (auto simp: no_overlap_def)

lemma no_overlap_cells: "no_overlap a b \<Longrightarrow> comp_cells a \<inter> comp_cells b = {}"
  by (auto simp: no_overlap_def comp_cells_def)

lemma commit_placed_invariant:
  assumes inv: "placed_invariant s" and v: "is_position_valid s c x y"
  shows "placed_invariant (commit s c x y)"
proof -
  let ?n = "(objects s c)\<lparr>comp_x := x, comp_y := y\<rparr>"
  have wn: "within_board s ?n"
    using valid_bounds [OF v] by (simp add: within_board_def)
  have on: "no_overlap ?n (objects s p)" if "p \<in> set (placed_components s)" for p
    using valid_no_overlap [OF v that] by (simp add: no_overlap_def overlaps_placed_def)
  have w: "within_board (commit s c x y) (objects (commit s c x y) p)"
    if "p \<in> set (placed_components (commit s c x y))" for p
  proof (cases "p = c")
    case True
    with wn show ?thesis by (simp add: within_board_def)
  next
    case False
    with that inv show ?thesis by (simp add: placed_invariant_def within_board_def)
  qed
  have o: "no_overlap (objects (commit s c x y) p) (objects (commit s c x y) q)"
    if "p \<in> set (placed_components (commit s c x y))"
       "q \<in> set (placed_components (commit s c x y))" "p \<noteq> q" for p q
  proof (cases "p = c")
    case True
    with that have "q \<in> set (placed_components s)" by auto
    from on [OF this] True that(3) show ?thesis by simp
  next
    case pc: False
    show ?thesis
    proof (cases "q = c")
      case True
      with that pc have "p \<in> set (placed_components s)" by auto
      from no_overlap_sym [OF on [OF this]] True pc show ?thesis by simp
    next
      case False
      with pc that inv show ?thesis by (simp add: placed_invariant_def)
    qed
  qed
  from w o show ?thesis unfolding placed_invariant_def by blast
qed

lemma try_positions_cases:
  "try_positions s c ps = (False, s) \<or>
   (\<exists>x y. (x, y) \<in> set ps \<and> is_position_valid s c x y \<and> try_positions s c ps = (True, commit s c x y))"
proof (induction ps)
  case Nil
  show ?case by simp
next
  case (Cons a ps)
  obtain x y where a: "a = (x, y)" by (cases a)
  show ?case
  proof (cases "is_position_valid s c x y")
    case True
    with a show ?thesis by auto
  next
    case False
    with a Cons show ?thesis by auto
  qed
qed

lemma place_component_placed_invariant:
  "placed_invariant s \<Longrightarrow> placed_invariant (snd (place_component s c))"
  using place_component_cases [of s c] by (auto intro: commit_placed_invariant)

lemma try_positions_placed_invariant:
  "placed_invariant s \<Longrightarrow> placed_invariant (snd (try_positions s c ps))"
  using try_positions_cases [of s c ps] by (auto intro: commit_placed_invariant)

lemma force_placed_invariant:
  "placed_invariant s \<Longrightarrow> placed_invariant (snd (force_mikrobus_placement s mb1 mb2))"
  using place_component_placed_invariant [of s mb1]
  by (auto simp: force_mikrobus_placement_def split: prod.splits intro: try_positions_placed_invariant)

lemma step_placed_invariant: "placed_invariant s \<Longrightarrow> placed_invariant (step s call)"
  by (cases call) (simp_all add: place_component_placed_invariant force_placed_invariant)

lemma run_placed_invariant: "placed_invariant s \<Longrightarrow> placed_invariant (run s calls)"
  unfolding run_def by (induction calls arbitrary: s) (simp_all add: step_placed_invariant)

lemma init_placed_invariant: "placed_invariant (PCBPlacer w h objs)"
  by (simp add: placed_invariant_def PCBPlacer_def)

text \<open>
  C1. In every state reached from a new placer by calls of \<open>place_component\<close> and
  \<open>force_mikrobus_placement\<close> (so after every successful call), every placed component
  lies within the board, \<open>0 \<le> x\<close>, \<open>0 \<le> y\<close>, \<open>x + width \<le> board_width\<close>,
  \<open>y + height \<le> board_height\<close>, and any two different placed components do not overlap:
  they share no cell, while touching edges is allowed.
\<close>

theorem placed_set_invariant:
  "(\<forall>p\<in>set (placed_components (run (PCBPlacer w h objs) calls)).
      within_board (run (PCBPlacer w h objs) calls) (objects (run (PCBPlacer w h objs) calls) p)) \<and>
   (\<forall>p\<in>set (placed_components (run (PCBPlacer w h objs) calls)).
    \<forall>q\<in>set (placed_components (run (PCBPlacer w h objs) calls)).
      p \<noteq> q \<longrightarrow>
        no_overlap (objects (run (PCBPlacer w h objs) calls) p) (objects (run (PCBPlacer w h objs) calls) q) \<and>
        comp_cells (objects (run (PCBPlacer w h objs) calls) p) \<inter>
        comp_cells (objects (run (PCBPlacer w h objs) calls) q) = {})"
proof -
  let ?s = "run (PCBPlacer w h objs) calls"
  have inv: "placed_invariant ?s"
    by (rule run_placed_invariant [OF init_placed_invariant])
  have "no_overlap (objects ?s p) (objects ?s q) \<and>
        comp_cells (objects ?s p) \<inter> comp_cells (objects ?s q) = {}"
    if "p \<in> set (placed_components ?s)" "q \<in> set (placed_components ?s)" "p \<noteq> q" for p q
  proof -
    from inv that have "no_overlap (objects ?s p) (objects ?s q)"
      unfolding placed_invariant_def by blast
    then show ?thesis by (simp add: no_overlap_cells)
  qed
  moreover have "\<forall>p\<in>set (placed_components ?s). within_board ?s (objects ?s p)"
    using inv unfolding placed_invariant_def by blast
  ultimately show ?thesis by blast
qed

section \<open>The free rectangles\<close>

lemma split_contains:
  "intersects r cm x y \<Longrightarrow> r' \<in> set (split_free_rectangle r cm x y) \<Longrightarrow> contains r r'"
  by (auto simp: split_free_rectangle_def intersects_def contains_def Rectangle_def split: if_splits)

lemma split_not_intersects:
  "r' \<in> set (split_free_rectangle r cm x y) \<Longrightarrow> \<not> intersects r' cm x y"
  by (auto simp: split_free_rectangle_def intersects_def Rectangle_def split: if_splits)

lemma contains_intersects:
  "contains r r' \<Longrightarrow> intersects r' cm x y \<Longrightarrow> intersects r cm x y"
  by (auto simp: intersects_def contains_def)

lemma new_free_member:
  assumes "r' \<in> set (new_free_rectangles rs cm x y)"
  shows "\<not> intersects r' cm x y \<and> (\<exists>r\<in>set rs. contains r r')"
proof -
  from assms obtain r where r: "r \<in> set rs"
    "r' \<in> set (if intersects r cm x y then split_free_rectangle r cm x y else [r])"
    by (auto simp: new_free_rectangles_def)
  show ?thesis
  proof (cases "intersects r cm x y")
    case True
    with r show ?thesis by (auto dest: split_contains split_not_intersects)
  next
    case False
    with r have "r' = r" by simp
    with r(1) False contains_refl [of r] show ?thesis by blast
  qed
qed

lemma split_covers:
  assumes "(i, j) \<in> rect_cells r"
  shows "(x \<le> i \<and> i < x + comp_width cm \<and> y \<le> j \<and> j < y + comp_height cm) \<or>
         (\<exists>r'\<in>set (split_free_rectangle r cm x y). (i, j) \<in> rect_cells r')"
proof -
  consider "i < x" | "x + comp_width cm \<le> i" | "j < y" | "y + comp_height cm \<le> j"
    | "x \<le> i \<and> i < x + comp_width cm \<and> y \<le> j \<and> j < y + comp_height cm"
    by linarith
  then show ?thesis
  proof cases
    case 1
    with assms have "Rectangle (rect_x r) (rect_y r) (x - rect_x r) (rect_height r)
        \<in> set (split_free_rectangle r cm x y)"
      "(i, j) \<in> rect_cells (Rectangle (rect_x r) (rect_y r) (x - rect_x r) (rect_height r))"
      by (auto simp: split_free_rectangle_def rect_cells_def Rectangle_def)
    then show ?thesis by blast
  next
    case 2
    with assms have "Rectangle (x + comp_width cm) (rect_y r)
              (rect_x r + rect_width r - x - comp_width cm) (rect_height r)
        \<in> set (split_free_rectangle r cm x y)"
      "(i, j) \<in> rect_cells (Rectangle (x + comp_width cm) (rect_y r)
              (rect_x r + rect_width r - x - comp_width cm) (rect_height r))"
      by (auto simp: split_free_rectangle_def rect_cells_def Rectangle_def)
    then show ?thesis by blast
  next
    case 3
    with assms have "Rectangle (rect_x r) (rect_y r) (rect_width r) (y - rect_y r)
        \<in> set (split_free_rectangle r cm x y)"
      "(i, j) \<in> rect_cells (Rectangle (rect_x r) (rect_y r) (rect_width r) (y - rect_y r))"
      by (auto simp: split_free_rectangle_def rect_cells_def Rectangle_def)
    then show ?thesis by blast
  next
    case 4
    with assms have "Rectangle (rect_x r) (y + comp_height cm)
              (rect_width r) (rect_y r + rect_height r - y - comp_height cm)
        \<in> set (split_free_rectangle r cm x y)"
      "(i, j) \<in> rect_cells (Rectangle (rect_x r) (y + comp_height cm)
              (rect_width r) (rect_y r + rect_height r - y - comp_height cm))"
      by (auto simp: split_free_rectangle_def rect_cells_def Rectangle_def)
    then show ?thesis by blast
  next
    case 5
    then show ?thesis by blast
  qed
qed

lemma new_free_covers:
  assumes "r \<in> set rs" "(i, j) \<in> rect_cells r"
  shows "(x \<le> i \<and> i < x + comp_width cm \<and> y \<le> j \<and> j < y + comp_height cm) \<or>
         (\<exists>r'\<in>set (new_free_rectangles rs cm x y). (i, j) \<in> rect_cells r')"
proof (cases "intersects r cm x y")
  case True
  with assms(1) have "set (split_free_rectangle r cm x y) \<subseteq> set (new_free_rectangles rs cm x y)"
    by (auto simp: new_free_rectangles_def)
  with split_covers [OF assms(2), of x cm y] show ?thesis by blast
next
  case False
  with assms(1) have "r \<in> set (new_free_rectangles rs cm x y)"
    by (auto simp: new_free_rectangles_def)
  with assms(2) show ?thesis by blast
qed

lemma contains_cells: "contains m r \<Longrightarrow> rect_cells r \<subseteq> rect_cells m"
  by (auto simp: contains_def rect_cells_def)

lemma contains_measure:
  "contains a b \<Longrightarrow> a \<noteq> b \<Longrightarrow>
     rect_width b + rect_height b < rect_width a + rect_height a"
  by (cases a, cases b) (auto simp: contains_def)

lemma prune_covers:
  assumes d: "distinct rs" and r: "r \<in> set rs"
  shows "\<exists>m\<in>set (remove_redundant_rectangles rs). contains m r"
proof -
  let ?S = "{m \<in> set rs. contains m r}"
  let ?f = "\<lambda>m. rect_width m + rect_height m"
  have fin: "finite (?f ` ?S)" by simp
  have ne: "?f ` ?S \<noteq> {}" using r contains_refl by auto
  from Max_in [OF fin ne] obtain m where m: "m \<in> ?S" "?f m = Max (?f ` ?S)" by auto
  have le: "?f m' \<le> ?f m" if "m' \<in> ?S" for m'
    using Max_ge [OF fin, of "?f m'"] that m(2) by auto
  from m(1) obtain i where i: "i < length rs" "rs ! i = m" by (auto simp: in_set_conv_nth)
  have "\<not> is_redundant rs i"
  proof
    assume "is_redundant rs i"
    then obtain j where j: "j < length rs" "i \<noteq> j" "contains (rs ! j) (rs ! i)"
      by (auto simp: is_redundant_iff)
    from d i(1) j(1,2) have "rs ! j \<noteq> rs ! i" by (simp add: nth_eq_iff_index_eq)
    from contains_measure [OF j(3) this] have lt: "?f m < ?f (rs ! j)" by (simp add: i)
    from j(3) m(1) have "contains (rs ! j) r" by (auto simp: i intro: contains_trans)
    with j(1) have "rs ! j \<in> ?S" by simp
    from le [OF this] lt show False by simp
  qed
  with i have "m \<in> set (remove_redundant_rectangles rs)" by (auto simp: set_remove_redundant)
  with m(1) show ?thesis by blast
qed

lemma split_distinct:
  "intersects a cm x y \<Longrightarrow> distinct (split_free_rectangle a cm x y)"
  by (auto simp: split_free_rectangle_def intersects_def Rectangle_def)

lemma split_disjoint:
  assumes "intersects a cm x y" "intersects b cm x y" "\<not> contains a b" "\<not> contains b a"
    and "r \<in> set (split_free_rectangle a cm x y)" "r \<in> set (split_free_rectangle b cm x y)"
  shows False
  using assms
  by (cases a, cases b)
     (auto simp: split_free_rectangle_def intersects_def contains_def Rectangle_def split: if_splits)

lemma antichain_tl: "antichain (a # rs) \<Longrightarrow> antichain rs"
  by (auto simp: antichain_def)

lemma antichain_hd:
  "antichain (a # rs) \<Longrightarrow> b \<in> set rs \<Longrightarrow> a \<noteq> b \<and> \<not> contains a b \<and> \<not> contains b a"
  by (auto simp: antichain_def)

lemma new_free_Cons:
  "new_free_rectangles (a # rs) cm x y =
     (if intersects a cm x y then split_free_rectangle a cm x y else [a]) @ new_free_rectangles rs cm x y"
  by (simp add: new_free_rectangles_def)

lemma new_free_distinct:
  "antichain rs \<Longrightarrow> distinct (new_free_rectangles rs cm x y)"
proof (induction rs)
  case Nil
  show ?case by (simp add: new_free_rectangles_def)
next
  case (Cons a rs)
  let ?f = "\<lambda>r. if intersects r cm x y then split_free_rectangle r cm x y else [r]"
  have d1: "distinct (?f a)" by (simp add: split_distinct)
  have d2: "distinct (new_free_rectangles rs cm x y)"
    using Cons by (auto dest: antichain_tl)
  have d3: "r \<notin> set (new_free_rectangles rs cm x y)" if ra: "r \<in> set (?f a)" for r
  proof
    assume "r \<in> set (new_free_rectangles rs cm x y)"
    then obtain b where b: "b \<in> set rs" "r \<in> set (?f b)"
      by (auto simp: new_free_rectangles_def)
    from antichain_hd [OF Cons.prems b(1)]
    have ab: "a \<noteq> b" "\<not> contains a b" "\<not> contains b a" by simp_all
    show False
    proof (cases "intersects a cm x y")
      case ia: True
      show ?thesis
      proof (cases "intersects b cm x y")
        case True
        with ia ra b(2) ab show ?thesis by (auto dest: split_disjoint)
      next
        case False
        with b(2) have "r = b" by simp
        with ia ra have "contains a b" by (auto dest: split_contains)
        with ab show ?thesis by simp
      qed
    next
      case na: False
      with ra have e: "r = a" by simp
      show ?thesis
      proof (cases "intersects b cm x y")
        case True
        with b(2) e have "contains b a" by (auto dest: split_contains)
        with ab show ?thesis by simp
      next
        case False
        with b(2) e ab show ?thesis by simp
      qed
    qed
  qed
  from d1 d2 d3 show ?case unfolding new_free_Cons by auto
qed

lemma meets_update [simp]:
  "meets r (p\<lparr>comp_x := x, comp_y := y\<rparr>) = intersects r p x y"
  by (simp add: meets_def intersects_def)

lemma comp_cells_update:
  "comp_cells (p\<lparr>comp_x := x, comp_y := y\<rparr>) =
     {(i, j). x \<le> i \<and> i < x + comp_width p \<and> y \<le> j \<and> j < y + comp_height p}"
  by (simp add: comp_cells_def)

lemma intersects_update [simp]:
  "intersects r (p\<lparr>comp_x := a, comp_y := b\<rparr>) x y = intersects r p x y"
  by (simp add: intersects_def)

lemma split_update [simp]:
  "split_free_rectangle r (p\<lparr>comp_x := a, comp_y := b\<rparr>) x y = split_free_rectangle r p x y"
  by (simp add: split_free_rectangle_def)

lemma new_free_update [simp]:
  "new_free_rectangles rs (p\<lparr>comp_x := a, comp_y := b\<rparr>) x y = new_free_rectangles rs p x y"
  by (simp add: new_free_rectangles_def cong: if_cong)

lemma commit_pool_invariant:
  assumes inv: "pool_invariant s"
  shows "pool_invariant (commit s c x y)"
proof -
  let ?new = "new_free_rectangles (free_rectangles s) (objects s c) x y"
  have a: "antichain (free_rectangles (commit s c x y))"
    by (simp add: antichain_remove_redundant)
  have m: "\<not> meets r (objects (commit s c x y) p)"
    if r: "r \<in> set (free_rectangles (commit s c x y))"
    and p: "p \<in> set (placed_components (commit s c x y))" for r p
  proof -
    from r have rn: "r \<in> set ?new" using remove_redundant_subset by auto
    from new_free_member [OF rn] obtain r0 where r0: "\<not> intersects r (objects s c) x y"
      "r0 \<in> set (free_rectangles s)" "contains r0 r" by blast
    show ?thesis
    proof (cases "p = c")
      case True
      with r0(1) show ?thesis by simp
    next
      case False
      with p have "p \<in> set (placed_components s)" by auto
      with inv r0(2) have "\<not> meets r0 (objects s p)" by (auto simp: pool_invariant_def)
      with r0(3) False show ?thesis by (auto simp: meets_def dest: contains_intersects)
    qed
  qed
  from a m show ?thesis unfolding pool_invariant_def by blast
qed

lemma commit_covers:
  assumes inv: "pool_invariant s" and cov: "covers s" and fresh: "c \<notin> set (placed_components s)"
  shows "covers (commit s c x y)"
proof -
  let ?s' = "commit s c x y"
  let ?new = "new_free_rectangles (free_rectangles s) (objects s c) x y"
  have dn: "distinct ?new" using inv by (auto simp: pool_invariant_def intro: new_free_distinct)
  have "(i, j) \<in> (\<Union>r\<in>set (free_rectangles ?s'). rect_cells r) \<union>
                  (\<Union>p\<in>set (placed_components ?s'). comp_cells (objects ?s' p))"
    if b: "(i, j) \<in> board_cells ?s'" for i j
  proof -
    from b have "(i, j) \<in> board_cells s" by (simp add: board_cells_def)
    with cov consider r where "r \<in> set (free_rectangles s)" "(i, j) \<in> rect_cells r"
      | p where "p \<in> set (placed_components s)" "(i, j) \<in> comp_cells (objects s p)"
      unfolding covers_def by blast
    then show ?thesis
    proof cases
      case 1
      from new_free_covers [OF 1, of x "objects s c" y]
      show ?thesis
      proof
        assume "x \<le> i \<and> i < x + comp_width (objects s c) \<and> y \<le> j \<and> j < y + comp_height (objects s c)"
        then have "(i, j) \<in> comp_cells (objects ?s' c)" by (simp add: comp_cells_update)
        then show ?thesis by auto
      next
        assume "\<exists>r'\<in>set ?new. (i, j) \<in> rect_cells r'"
        then obtain r' where r': "r' \<in> set ?new" "(i, j) \<in> rect_cells r'" by blast
        from prune_covers [OF dn r'(1)] obtain m where
          m: "m \<in> set (remove_redundant_rectangles ?new)" "contains m r'" by blast
        from contains_cells [OF m(2)] r'(2) have "(i, j) \<in> rect_cells m" by blast
        with m(1) show ?thesis by auto
      qed
    next
      case 2
      with fresh have "p \<noteq> c" by auto
      with 2 have "p \<in> set (placed_components ?s')" "(i, j) \<in> comp_cells (objects ?s' p)"
        by simp_all
      then show ?thesis by blast
    qed
  qed
  then show ?thesis unfolding covers_def by auto
qed

lemma place_component_pool_invariant:
  "pool_invariant s \<Longrightarrow> pool_invariant (snd (place_component s c))"
  using place_component_cases [of s c] by (auto intro: commit_pool_invariant)

lemma try_positions_pool_invariant:
  "pool_invariant s \<Longrightarrow> pool_invariant (snd (try_positions s c ps))"
  using try_positions_cases [of s c ps] by (auto intro: commit_pool_invariant)

lemma force_pool_invariant:
  "pool_invariant s \<Longrightarrow> pool_invariant (snd (force_mikrobus_placement s mb1 mb2))"
  using place_component_pool_invariant [of s mb1]
  by (auto simp: force_mikrobus_placement_def split: prod.splits intro: try_positions_pool_invariant)

lemma step_pool_invariant: "pool_invariant s \<Longrightarrow> pool_invariant (step s call)"
  by (cases call) (simp_all add: place_component_pool_invariant force_pool_invariant)

lemma run_pool_invariant: "pool_invariant s \<Longrightarrow> pool_invariant (run s calls)"
  unfolding run_def by (induction calls arbitrary: s) (simp_all add: step_pool_invariant)

lemma place_component_placed:
  "set (placed_components (snd (place_component s c))) \<subseteq> insert c (set (placed_components s))"
  using place_component_cases [of s c] by auto

lemma try_positions_placed:
  "set (placed_components (snd (try_positions s c ps))) \<subseteq> insert c (set (placed_components s))"
  using try_positions_cases [of s c ps] by auto

lemma place_component_covers:
  "pool_invariant s \<Longrightarrow> covers s \<Longrightarrow> c \<notin> set (placed_components s) \<Longrightarrow>
     covers (snd (place_component s c))"
  using place_component_cases [of s c] by (auto intro: commit_covers)

lemma try_positions_covers:
  "pool_invariant s \<Longrightarrow> covers s \<Longrightarrow> c \<notin> set (placed_components s) \<Longrightarrow>
     covers (snd (try_positions s c ps))"
  using try_positions_cases [of s c ps] by (auto intro: commit_covers)

lemma force_snd:
  "snd (force_mikrobus_placement s mb1 mb2) =
     (if fst (place_component s mb1)
      then snd (try_positions (snd (place_component s mb1)) mb2
                  (target_positions (snd (place_component s mb1)) mb1))
      else snd (place_component s mb1))"
  by (simp add: force_mikrobus_placement_def split: prod.splits)

lemma force_placed:
  "set (placed_components (snd (force_mikrobus_placement s mb1 mb2)))
     \<subseteq> insert mb1 (insert mb2 (set (placed_components s)))"
  using place_component_placed [of s mb1]
    try_positions_placed [of "snd (place_component s mb1)" mb2
       "target_positions (snd (place_component s mb1)) mb1"]
  by (auto simp: force_snd)

lemma force_covers:
  assumes "pool_invariant s" "covers s" "mb1 \<notin> set (placed_components s)"
    "mb2 \<notin> set (placed_components (snd (place_component s mb1)))"
  shows "covers (snd (force_mikrobus_placement s mb1 mb2))"
proof -
  let ?s1 = "snd (place_component s mb1)"
  have p: "pool_invariant ?s1" using assms(1) by (rule place_component_pool_invariant)
  have c: "covers ?s1" using assms(1-3) by (rule place_component_covers)
  from p c assms(4) show ?thesis by (simp add: force_snd try_positions_covers)
qed

lemma step_covers:
  assumes "pool_invariant s" "covers s" "fresh s call"
  shows "covers (step s call)"
  using assms by (cases call) (auto intro: place_component_covers force_covers)

lemma run_covers:
  "pool_invariant s \<Longrightarrow> covers s \<Longrightarrow> fresh_run s calls \<Longrightarrow> covers (run s calls)"
proof (induction calls arbitrary: s)
  case Nil
  then show ?case by (simp add: run_def)
next
  case (Cons call calls)
  have 1: "pool_invariant (step s call)" using Cons.prems(1) by (rule step_pool_invariant)
  have 2: "covers (step s call)" using Cons.prems by (intro step_covers) auto
  have 3: "fresh_run (step s call) calls" using Cons.prems(3) by simp
  from Cons.IH [OF 1 2 3] show ?case by (simp add: run_def)
qed

lemma init_pool_invariant: "pool_invariant (PCBPlacer w h objs)"
  by (simp add: pool_invariant_def PCBPlacer_def antichain_def)

lemma init_covers: "covers (PCBPlacer w h objs)"
  by (auto simp: covers_def PCBPlacer_def board_cells_def rect_cells_def Rectangle_def)

lemma not_meets_cells: "\<not> meets r p \<Longrightarrow> rect_cells r \<inter> comp_cells p = {}"
  by (auto simp: meets_def intersects_def rect_cells_def comp_cells_def)

text \<open>
  C2. In every state reached from a new placer by calls of \<open>place_component\<close> and
  \<open>force_mikrobus_placement\<close>, no free rectangle meets a placed component: the two share
  no cell. When every call is fresh, that is, no component is positioned a second time
  (the position fields of a component are written once), the free rectangles and the
  placed components together cover every cell of the board; the pruning loses no cell,
  because on these pools the split never produces two equal rectangles.
\<close>

theorem free_pool_invariant:
  "(\<forall>r\<in>set (free_rectangles (run (PCBPlacer w h objs) calls)).
    \<forall>p\<in>set (placed_components (run (PCBPlacer w h objs) calls)).
      \<not> meets r (objects (run (PCBPlacer w h objs) calls) p) \<and>
      rect_cells r \<inter> comp_cells (objects (run (PCBPlacer w h objs) calls) p) = {}) \<and>
   (fresh_run (PCBPlacer w h objs) calls \<longrightarrow>
      board_cells (run (PCBPlacer w h objs) calls)
        \<subseteq> (\<Union>r\<in>set (free_rectangles (run (PCBPlacer w h objs) calls)). rect_cells r) \<union>
           (\<Union>p\<in>set (placed_components (run (PCBPlacer w h objs) calls)).
               comp_cells (objects (run (PCBPlacer w h objs) calls) p)))"
proof -
  let ?s = "run (PCBPlacer w h objs) calls"
  have inv: "pool_invariant ?s" by (rule run_pool_invariant [OF init_pool_invariant])
  have a: "\<not> meets r (objects ?s p) \<and> rect_cells r \<inter> comp_cells (objects ?s p) = {}"
    if "r \<in> set (free_rectangles ?s)" "p \<in> set (placed_components ?s)" for r p
  proof -
    from inv that have "\<not> meets r (objects ?s p)" unfolding pool_invariant_def by blast
    then show ?thesis by (simp add: not_meets_cells)
  qed
  have b: "covers ?s" if "fresh_run (PCBPlacer w h objs) calls"
    using init_pool_invariant init_covers that by (rule run_covers)
  from a b show ?thesis unfolding covers_def by blast
qed

section \<open>The demonstration run\<close>

lemma demo_placed: "placed_components demo_board = [0, 1, 2, 3, 4]"
  by code_simp

lemma demo_positions:
  "map (\<lambda>p. (comp_x (objects demo_board p), comp_y (objects demo_board p)))
     [0, 1, 2, 3, 4] = [(0, 0), (5, 0), (0, 45), (10, 0), (15, 0)]"
  by code_simp

theorem placed_set_invariant_witness:
  "placed_components demo_board = [0, 1, 2, 3, 4] \<and>
   map (\<lambda>p. (comp_x (objects demo_board p), comp_y (objects demo_board p)))
     [0, 1, 2, 3, 4] = [(0, 0), (5, 0), (0, 45), (10, 0), (15, 0)] \<and>
   within_board demo_board (objects demo_board 4) \<and>
   no_overlap (objects demo_board 3) (objects demo_board 4) \<and>
   comp_cells (objects demo_board 3) \<inter> comp_cells (objects demo_board 4) = {}"
proof -
  note t = placed_set_invariant [of 50 50 "objects_of create_components" demo_calls,
      folded demo_board_def]
  have m: "(3::nat) \<in> set (placed_components demo_board)"
    "(4::nat) \<in> set (placed_components demo_board)" "(3::nat) \<noteq> 4"
    by (simp_all add: demo_placed)
  from t m have "within_board demo_board (objects demo_board 4)"
    by blast
  moreover from t m have "no_overlap (objects demo_board 3) (objects demo_board 4) \<and>
   comp_cells (objects demo_board 3) \<inter> comp_cells (objects demo_board 4) = {}"
    by blast
  ultimately show ?thesis using demo_placed demo_positions by simp
qed

theorem free_pool_invariant_witness:
  "fresh_run (PCBPlacer 50 50 (objects_of create_components)) demo_calls \<and>
   free_rectangles demo_board =
     [Rectangle 20 0 30 50, Rectangle 5 5 45 45, Rectangle 0 5 50 40] \<and>
   \<not> meets (Rectangle 20 0 30 50) (objects demo_board 4) \<and>
   covers demo_board \<and>
   fresh_run wide_board [Force 0 1, Place 1] \<and>
   covers (run wide_board [Force 0 1, Place 1])"
proof -
  note t = free_pool_invariant [of 50 50 "objects_of create_components" demo_calls,
      folded demo_board_def]
  have d: "fresh_run (PCBPlacer 50 50 (objects_of create_components)) demo_calls" by code_simp
  have f: "free_rectangles demo_board =
     [Rectangle 20 0 30 50, Rectangle 5 5 45 45, Rectangle 0 5 50 40]" by code_simp
  have m: "(4::nat) \<in> set (placed_components demo_board)"
    "Rectangle 20 0 30 50 \<in> set (free_rectangles demo_board)"
    by (simp_all add: demo_placed f)
  from t m have n: "\<not> meets (Rectangle 20 0 30 50) (objects demo_board 4)" by blast
  from t d have c: "covers demo_board" unfolding covers_def by blast
  have e: "fresh_run wide_board [Force 0 1, Place 1]" by code_simp
  from free_pool_invariant [of 50 50 "objects_of wide_components" "[Force 0 1, Place 1]",
      folded wide_board_def] e
  have g: "covers (run wide_board [Force 0 1, Place 1])" unfolding covers_def by blast
  from d f n c e g show ?thesis by simp
qed

lemma placed_twice_fields:
  "board_width placed_twice = 4" "board_height placed_twice = 4"
  "placed_components placed_twice = [0, 0]"
  "free_rectangles placed_twice = [Rectangle 1 0 3 4]"
  "comp_x (objects placed_twice 0) = 0" "comp_y (objects placed_twice 0) = 2"
  "comp_width (objects placed_twice 0) = 1" "comp_height (objects placed_twice 0) = 2"
  by code_simp+

text \<open>
  The condition on the calls is needed: when a component that is placed already is given
  to \<open>place_component\<close> again, the call moves it, the cells of its first position stay
  cut out of the pool, and cell \<open>(0, 0)\<close> of the 4 by 4 board is in no free rectangle and
  in no placed component.
\<close>

lemma covers_lost_on_second_placement:
  "fst (place_component (PCBPlacer 4 4 (objects_of tie_components)) 0) = True \<and>
   fst (place_component (snd (place_component (PCBPlacer 4 4 (objects_of tie_components)) 0)) 0) = True \<and>
   placed_twice =
     snd (place_component (snd (place_component (PCBPlacer 4 4 (objects_of tie_components)) 0)) 0) \<and>
   placed_components placed_twice = [0, 0] \<and>
   comp_x (objects placed_twice 0) = 0 \<and> comp_y (objects placed_twice 0) = 2 \<and>
   free_rectangles placed_twice = [Rectangle 1 0 3 4] \<and>
   (0, 0) \<in> board_cells placed_twice \<and>
   (0, 0) \<notin> (\<Union>r\<in>set (free_rectangles placed_twice). rect_cells r) \<union>
             (\<Union>p\<in>set (placed_components placed_twice). comp_cells (objects placed_twice p)) \<and>
   \<not> covers placed_twice"
proof -
  have a: "fst (place_component (PCBPlacer 4 4 (objects_of tie_components)) 0) = True"
    by code_simp
  have b: "fst (place_component (snd (place_component (PCBPlacer 4 4 (objects_of tie_components)) 0)) 0) = True"
    by code_simp
  have c: "placed_twice =
     snd (place_component (snd (place_component (PCBPlacer 4 4 (objects_of tie_components)) 0)) 0)"
    by (simp add: placed_twice_def run_def)
  have d: "(0, 0) \<in> board_cells placed_twice"
    by (simp add: board_cells_def placed_twice_fields)
  have e: "(0, 0) \<notin> (\<Union>r\<in>set (free_rectangles placed_twice). rect_cells r) \<union>
             (\<Union>p\<in>set (placed_components placed_twice). comp_cells (objects placed_twice p))"
    by (simp add: placed_twice_fields rect_cells_def comp_cells_def Rectangle_def)
  from d e have "\<not> covers placed_twice" unfolding covers_def by blast
  with a b c d e placed_twice_fields show ?thesis by blast
qed

section \<open>Failure of the paired placement\<close>

lemma try_positions_fails_iff:
  "(fst (try_positions s c ps) = False) =
     (\<forall>p\<in>set ps. \<not> is_position_valid s c (fst p) (snd p))"
proof (induction ps)
  case Nil
  show ?case by simp
next
  case (Cons a ps)
  obtain x y where a: "a = (x, y)" by (cases a)
  show ?case
  proof (cases "is_position_valid s c x y")
    case True
    with a show ?thesis by simp
  next
    case False
    with a Cons show ?thesis by simp
  qed
qed

lemma try_positions_fails_state:
  "fst (try_positions s c ps) = False \<Longrightarrow> snd (try_positions s c ps) = s"
  by (induction ps) (auto split: if_splits)

lemma target_positions_no_edge:
  "comp_x (objects s r1) \<noteq> 0 \<Longrightarrow> comp_x (objects s r1) + comp_width (objects s r1) \<noteq> board_width s \<Longrightarrow>
   comp_y (objects s r1) \<noteq> 0 \<Longrightarrow> comp_y (objects s r1) + comp_height (objects s r1) \<noteq> board_height s \<Longrightarrow>
   target_positions s r1 = []"
  by (simp add: target_positions_def Let_def)

text \<open>
  C5. When the first connector was placed, reaching \<open>s1\<close>, the paired placement fails
  exactly when none of the target positions is valid for the second connector; that is
  the case, with no target position at all, when the first connector touches none of
  the four edges. On failure the placer is \<open>s1\<close>: the first connector is the last entry
  of the placed list, at the committed position, and the free rectangles are those left
  by its placement.
\<close>

theorem force_failure_keeps_anchor:
  assumes "place_component s mb1 = (True, s1)"
  shows "(fst (force_mikrobus_placement s mb1 mb2) = False \<longleftrightarrow>
            (\<forall>p\<in>set (target_positions s1 mb1). \<not> is_position_valid s1 mb2 (fst p) (snd p))) \<and>
         (comp_x (objects s1 mb1) \<noteq> 0 \<and>
          comp_x (objects s1 mb1) + comp_width (objects s1 mb1) \<noteq> board_width s1 \<and>
          comp_y (objects s1 mb1) \<noteq> 0 \<and>
          comp_y (objects s1 mb1) + comp_height (objects s1 mb1) \<noteq> board_height s1 \<longrightarrow>
            fst (force_mikrobus_placement s mb1 mb2) = False) \<and>
         (fst (force_mikrobus_placement s mb1 mb2) = False \<longrightarrow>
            snd (force_mikrobus_placement s mb1 mb2) = s1 \<and>
            (\<exists>x y. is_position_valid s mb1 x y \<and> s1 = commit s mb1 x y \<and>
               placed_components s1 = placed_components s @ [mb1] \<and>
               comp_x (objects s1 mb1) = x \<and> comp_y (objects s1 mb1) = y))"
proof -
  have f: "force_mikrobus_placement s mb1 mb2 = try_positions s1 mb2 (target_positions s1 mb1)"
    using assms by (simp add: force_mikrobus_placement_def)
  from place_component_cases [of s mb1] assms
  obtain x y where xy: "is_position_valid s mb1 x y" "s1 = commit s mb1 x y" by auto
  have a: "(fst (force_mikrobus_placement s mb1 mb2) = False) =
            (\<forall>p\<in>set (target_positions s1 mb1). \<not> is_position_valid s1 mb2 (fst p) (snd p))"
    unfolding f by (rule try_positions_fails_iff)
  have b: "fst (force_mikrobus_placement s mb1 mb2) = False"
    if "comp_x (objects s1 mb1) \<noteq> 0 \<and>
          comp_x (objects s1 mb1) + comp_width (objects s1 mb1) \<noteq> board_width s1 \<and>
          comp_y (objects s1 mb1) \<noteq> 0 \<and>
          comp_y (objects s1 mb1) + comp_height (objects s1 mb1) \<noteq> board_height s1"
    using that unfolding f by (simp add: target_positions_no_edge)
  have c: "snd (force_mikrobus_placement s mb1 mb2) = s1"
    if "fst (force_mikrobus_placement s mb1 mb2) = False"
    using that unfolding f by (rule try_positions_fails_state)
  have d: "\<exists>x y. is_position_valid s mb1 x y \<and> s1 = commit s mb1 x y \<and>
               placed_components s1 = placed_components s @ [mb1] \<and>
               comp_x (objects s1 mb1) = x \<and> comp_y (objects s1 mb1) = y"
    using xy by (intro exI[of _ x] exI[of _ y]) simp
  from a b c d show ?thesis by blast
qed

theorem force_failure_keeps_anchor_witness:
  "place_component wide_board 0 = (True, snd (place_component wide_board 0)) \<and>
   fst (force_mikrobus_placement wide_board 0 1) = False \<and>
   snd (force_mikrobus_placement wide_board 0 1) = snd (place_component wide_board 0) \<and>
   placed_components (snd (force_mikrobus_placement wide_board 0 1)) = [0] \<and>
   comp_x (objects (snd (force_mikrobus_placement wide_board 0 1)) 0) = 0 \<and>
   comp_y (objects (snd (force_mikrobus_placement wide_board 0 1)) 0) = 0 \<and>
   place_component inner_board 5 = (True, snd (place_component inner_board 5)) \<and>
   comp_x (objects (snd (place_component inner_board 5)) 5) = 5 \<and>
   comp_y (objects (snd (place_component inner_board 5)) 5) = 5 \<and>
   fst (force_mikrobus_placement inner_board 5 6) = False \<and>
   snd (force_mikrobus_placement inner_board 5 6) = snd (place_component inner_board 5)"
proof -
  have p: "place_component wide_board 0 = (True, snd (place_component wide_board 0))"
    by (rule prod_eqI) (code_simp, simp)
  have v: "\<forall>p\<in>set (target_positions (snd (place_component wide_board 0)) 0).
     \<not> is_position_valid (snd (place_component wide_board 0)) 1 (fst p) (snd p)"
    by code_simp
  note t = force_failure_keeps_anchor [OF p, of 1]
  from t v have f: "fst (force_mikrobus_placement wide_board 0 1) = False" by blast
  with t have s: "snd (force_mikrobus_placement wide_board 0 1) = snd (place_component wide_board 0)"
    by blast
  have e: "placed_components (snd (place_component wide_board 0)) = [0]"
    "comp_x (objects (snd (place_component wide_board 0)) 0) = 0"
    "comp_y (objects (snd (place_component wide_board 0)) 0) = 0"
    by code_simp+
  have q: "place_component inner_board 5 = (True, snd (place_component inner_board 5))"
    by (rule prod_eqI) (code_simp, simp)
  have i: "comp_x (objects (snd (place_component inner_board 5)) 5) = 5"
    "comp_y (objects (snd (place_component inner_board 5)) 5) = 5"
    "comp_width (objects (snd (place_component inner_board 5)) 5) = 44"
    "comp_height (objects (snd (place_component inner_board 5)) 5) = 44"
    "board_width (snd (place_component inner_board 5)) = 50"
    "board_height (snd (place_component inner_board 5)) = 50"
    by code_simp+
  note u = force_failure_keeps_anchor [OF q, of 6]
  from u i have g: "fst (force_mikrobus_placement inner_board 5 6) = False" by simp
  with u have h: "snd (force_mikrobus_placement inner_board 5 6) = snd (place_component inner_board 5)"
    by blast
  from p f s e q i g h show ?thesis by simp
qed

section \<open>The proximity constraint\<close>

lemma valid_proximity:
  assumes "is_position_valid s c x y" "proximity_target (objects s c) = Some t" "t \<noteq> []"
    "find_target s t = Some target"
  shows "center_distance (objects s c) x y (objects s target) \<le> max_proximity_distance (objects s c)"
  using assms
  by (auto simp: is_position_valid_def proximity_ok_def too_far_def Let_def split: if_splits)

lemma center_distance_update [simp]:
  "center_distance (p\<lparr>comp_x := a, comp_y := b\<rparr>) x y q = center_distance p x y q"
  by (simp add: center_distance_def)

text \<open>
  C7, as amended. For a component whose \<open>proximity_target\<close> is a non-empty name, when a
  placed component has that name (the first one in the placed list is the target),
  every valid position, and so every position committed by \<open>place_component\<close> or by the
  scan of the target positions, has the distance of the two centres, computed with
  floor-divided half extents, at most \<open>max_proximity_distance\<close>. When the target is
  \<open>None\<close> or the empty string, or no placed component has the name, the proximity check
  passes at every position.
\<close>

theorem proximity_respected:
  "(proximity_target (objects s c) = Some t \<and> t \<noteq> [] \<and> find_target s t = Some target \<longrightarrow>
      (is_position_valid s c x y \<longrightarrow>
         center_distance (objects s c) x y (objects s target) \<le> max_proximity_distance (objects s c)) \<and>
      (place_component s c = (True, s') \<or> try_positions s c ps = (True, s') \<longrightarrow>
         center_distance (objects s' c) (comp_x (objects s' c)) (comp_y (objects s' c)) (objects s target)
           \<le> max_proximity_distance (objects s' c) \<and>
         (target \<noteq> c \<longrightarrow> objects s' target = objects s target))) \<and>
   (proximity_target (objects s c) = None \<or> proximity_target (objects s c) = Some [] \<or>
    proximity_target (objects s c) = Some t \<and> find_target s t = None \<longrightarrow>
      proximity_ok s (objects s c) x y)"
proof (intro conjI impI)
  assume h: "proximity_target (objects s c) = Some t \<and> t \<noteq> [] \<and> find_target s t = Some target"
  have a: "center_distance (objects s c) x y (objects s target) \<le> max_proximity_distance (objects s c)"
    if "is_position_valid s c x y" for x y
    using that h by (auto intro: valid_proximity)
  {
    assume "is_position_valid s c x y"
    then show "center_distance (objects s c) x y (objects s target)
      \<le> max_proximity_distance (objects s c)" by (rule a)
  }
  {
    assume "place_component s c = (True, s') \<or> try_positions s c ps = (True, s')"
    with place_component_cases [of s c] try_positions_cases [of s c ps]
    obtain x' y' where xy: "is_position_valid s c x' y'" "s' = commit s c x' y'" by auto
    from a [OF xy(1)]
    show "center_distance (objects s' c) (comp_x (objects s' c)) (comp_y (objects s' c)) (objects s target)
           \<le> max_proximity_distance (objects s' c)" by (simp add: xy(2))
    assume "target \<noteq> c"
    then show "objects s' target = objects s target" by (simp add: xy(2))
  }
next
  assume "proximity_target (objects s c) = None \<or> proximity_target (objects s c) = Some [] \<or>
    proximity_target (objects s c) = Some t \<and> find_target s t = None"
  then show "proximity_ok s (objects s c) x y" by (auto simp: proximity_ok_def)
qed

theorem proximity_respected_witness:
  "proximity_target (objects crystal_board 4) = Some ''MICROCONTROLLER'' \<and>
   find_target crystal_board ''MICROCONTROLLER'' = Some 3 \<and>
   place_component crystal_board 4 = (True, snd (place_component crystal_board 4)) \<and>
   comp_x (objects (snd (place_component crystal_board 4)) 4) = 15 \<and>
   comp_y (objects (snd (place_component crystal_board 4)) 4) = 0 \<and>
   max_proximity_distance (objects (snd (place_component crystal_board 4)) 4) = 10 \<and>
   center_distance (objects (snd (place_component crystal_board 4)) 4) 15 0 (objects crystal_board 3) \<le> 10 \<and>
   find_target (PCBPlacer 50 50 (objects_of create_components)) ''MICROCONTROLLER'' = None \<and>
   proximity_ok (PCBPlacer 50 50 (objects_of create_components))
     (objects (PCBPlacer 50 50 (objects_of create_components)) 4) 40 40"
proof -
  have a: "proximity_target (objects crystal_board 4) = Some ''MICROCONTROLLER''"
    "find_target crystal_board ''MICROCONTROLLER'' = Some 3"
    by code_simp+
  have n: "''MICROCONTROLLER'' \<noteq> []" by simp
  have p: "place_component crystal_board 4 = (True, snd (place_component crystal_board 4))"
    by (rule prod_eqI) (code_simp, simp)
  have e: "comp_x (objects (snd (place_component crystal_board 4)) 4) = 15"
    "comp_y (objects (snd (place_component crystal_board 4)) 4) = 0"
    "max_proximity_distance (objects (snd (place_component crystal_board 4)) 4) = 10"
    by code_simp+
  have b: "proximity_target (objects (PCBPlacer 50 50 (objects_of create_components)) 4)
      = Some ''MICROCONTROLLER''"
    "find_target (PCBPlacer 50 50 (objects_of create_components)) ''MICROCONTROLLER'' = None"
    by code_simp+
  from proximity_respected [of crystal_board 4 "''MICROCONTROLLER''" 3 0 0
      "snd (place_component crystal_board 4)" "[]"] a n p
  have "center_distance (objects (snd (place_component crystal_board 4)) 4)
      (comp_x (objects (snd (place_component crystal_board 4)) 4))
      (comp_y (objects (snd (place_component crystal_board 4)) 4)) (objects crystal_board 3)
      \<le> max_proximity_distance (objects (snd (place_component crystal_board 4)) 4)"
    by blast
  then have d: "center_distance (objects (snd (place_component crystal_board 4)) 4) 15 0
      (objects crystal_board 3) \<le> 10" by (simp add: e)
  from proximity_respected [of "PCBPlacer 50 50 (objects_of create_components)" 4
      "''MICROCONTROLLER''" 0 40 40 "PCBPlacer 50 50 (objects_of create_components)" "[]"] b
  have s: "proximity_ok (PCBPlacer 50 50 (objects_of create_components))
     (objects (PCBPlacer 50 50 (objects_of create_components)) 4) 40 40"
    by blast
  from a p e d b(2) s show ?thesis by simp
qed

text \<open>
  C7 as it is stated fails for a target whose name is the empty string: the truth test
  of line 61 skips the check, and the component is committed at distance 5 from its
  target although its \<open>max_proximity_distance\<close> is 0.
\<close>

theorem proximity_counterexample:
  "proximity_target (objects unnamed_board 1) = Some [] \<and>
   find_target unnamed_board [] = Some 0 \<and>
   place_component unnamed_board 1 = (True, snd (place_component unnamed_board 1)) \<and>
   comp_x (objects (snd (place_component unnamed_board 1)) 1) = 5 \<and>
   comp_y (objects (snd (place_component unnamed_board 1)) 1) = 0 \<and>
   max_proximity_distance (objects (snd (place_component unnamed_board 1)) 1) = 0 \<and>
   \<not> center_distance (objects (snd (place_component unnamed_board 1)) 1)
       (comp_x (objects (snd (place_component unnamed_board 1)) 1))
       (comp_y (objects (snd (place_component unnamed_board 1)) 1)) (objects unnamed_board 0)
     \<le> max_proximity_distance (objects (snd (place_component unnamed_board 1)) 1)"
proof -
  have a: "proximity_target (objects unnamed_board 1) = Some []"
    "find_target unnamed_board [] = Some 0"
    by code_simp+
  have p: "place_component unnamed_board 1 = (True, snd (place_component unnamed_board 1))"
    by (rule prod_eqI) (code_simp, simp)
  have e: "comp_x (objects (snd (place_component unnamed_board 1)) 1) = 5"
    "comp_y (objects (snd (place_component unnamed_board 1)) 1) = 0"
    "max_proximity_distance (objects (snd (place_component unnamed_board 1)) 1) = 0"
    by code_simp+
  have "too_far (objects (snd (place_component unnamed_board 1)) 1)
       (comp_x (objects (snd (place_component unnamed_board 1)) 1))
       (comp_y (objects (snd (place_component unnamed_board 1)) 1)) (objects unnamed_board 0)"
    by code_simp
  then have d: "\<not> center_distance (objects (snd (place_component unnamed_board 1)) 1)
       (comp_x (objects (snd (place_component unnamed_board 1)) 1))
       (comp_y (objects (snd (place_component unnamed_board 1)) 1)) (objects unnamed_board 0)
     \<le> max_proximity_distance (objects (snd (place_component unnamed_board 1)) 1)"
    by (simp add: too_far_def)
  from a p e d show ?thesis by blast
qed

section \<open>The target positions of the paired placement\<close>

lemma grid_eq: "grid = [0, 5, 10, 15, 20, 25, 30, 35, 40, 45]"
  unfolding grid_def by code_simp

lemma target_positions_left:
  "comp_x (objects s r1) = 0 \<Longrightarrow>
     target_positions s r1 =
       [(45, 0), (45, 5), (45, 10), (45, 15), (45, 20), (45, 25), (45, 30), (45, 35), (45, 40), (45, 45)]"
  by (simp add: target_positions_def grid_eq)

text \<open>
  C3. The target positions are the fixed coordinates 45 and 0, 5, \<dots>, 45, whatever the
  size of the board and of the second connector. On the 100 by 100 board the first
  connector lands at \<open>(0, 0)\<close>, on the left edge, and the second is committed at
  \<open>(45, 0)\<close>: its right side is at 50, not on the right edge, and
  \<open>check_mikrobus_parallel_constraint\<close> is false.
\<close>

theorem force_mikrobus_placement_fixed_positions:
  "fst (force_mikrobus_placement big_board 1 2) = True \<and>
   board_width (snd (force_mikrobus_placement big_board 1 2)) = 100 \<and>
   board_height (snd (force_mikrobus_placement big_board 1 2)) = 100 \<and>
   placed_components (snd (force_mikrobus_placement big_board 1 2)) = [1, 2] \<and>
   comp_x (objects (snd (force_mikrobus_placement big_board 1 2)) 1) = 0 \<and>
   comp_y (objects (snd (force_mikrobus_placement big_board 1 2)) 1) = 0 \<and>
   comp_x (objects (snd (force_mikrobus_placement big_board 1 2)) 2) = 45 \<and>
   comp_y (objects (snd (force_mikrobus_placement big_board 1 2)) 2) = 0 \<and>
   comp_width (objects (snd (force_mikrobus_placement big_board 1 2)) 2) = 5 \<and>
   check_mikrobus_parallel_constraint (snd (force_mikrobus_placement big_board 1 2)) 1 2 = False"
  by code_simp

end
